theory Spec2Isabelle
  imports Main "HOL-Library.Word"
begin

section \<open>The debugging allocator: data model\<close>

text \<open>
  The allocator works on one arena obtained from \<^verbatim>\<open>mmap\<close>. Pointers and \<^verbatim>\<open>size_t\<close>
  values are 64-bit words, so every sum and difference wraps as it does in the program;
  the null pointer is \<open>0\<close>. The arena is seen through two stores that are indexed
  by address: the header objects (one \<^verbatim>\<open>header\<close> struct per address, all
  fields zero where nothing was written, as in fresh anonymous memory) and the bytes
  that payloads, paddings and end markers occupy.

  The declarations of \<^verbatim>\<open>m61.hh\<close> are not part of the sources at hand. The members of
  \<^verbatim>\<open>header\<close> are those the accompanying notes list; \<^verbatim>\<open>m61_statistics\<close> has the
  members the engine initialises. The platform constants are those of an LP64 target:
  seven 8-byte members and one \<^verbatim>\<open>int\<close> give \<^verbatim>\<open>sizeof(header) = 64\<close>, and
  \<^verbatim>\<open>alignof(std::max_align_t) = 16\<close>.
\<close>

type_synonym addr = "64 word"
type_synonym size_t = "64 word"
type_synonym byte = "8 word"

definition FREE :: addr where
  "FREE = 0xCAFEFEED"

definition ALLOCATED :: addr where
  "ALLOCATED = 0xDEADF00D"

definition END_MARKER :: "byte list" where
  "END_MARKER = [0x44, 0x45, 0x41, 0x44, 0x43, 0x30, 0x44, 0x45]"

definition sizeof_END_MARKER :: size_t where
  "sizeof_END_MARKER = 8"

definition ALIGNMENT :: size_t where
  "ALIGNMENT = 16"

definition sizeof_header :: size_t where
  "sizeof_header = 64"

definition MIN_BLOCK_SIZE :: size_t where
  "MIN_BLOCK_SIZE = sizeof_header + ALIGNMENT"

definition SIZE_MAX :: size_t where
  "SIZE_MAX = 0xFFFFFFFFFFFFFFFF"

record header =
  block_size :: size_t
  p_payload :: addr
  p_end_marker :: addr
  p_status :: addr
  p_file :: string
  line :: int
  p_next :: addr
  p_prev :: addr

record m61_memory_buffer =
  buffer :: addr
  pos :: size_t
  buf_size :: size_t

record m61_statistics =
  nactive :: "64 word"
  active_size :: "64 word"
  ntotal :: "64 word"
  total_size :: "64 word"
  nfail :: "64 word"
  fail_size :: "64 word"
  heap_min :: addr
  heap_max :: addr

text \<open>
  The globals of the engine: the list head, the arena descriptor and the statistics,
  together with the two stores.
\<close>

record state =
  hdrs :: "addr \<Rightarrow> header"
  bytes :: "addr \<Rightarrow> byte"
  head :: addr
  default_buffer :: m61_memory_buffer
  gstats :: m61_statistics

text \<open>
  What the engine prints on the error stream before it aborts. A failed \<^verbatim>\<open>assert\<close>
  aborts as well.
\<close>

datatype diag =
    NotInHeap string int addr
  | NotAllocated string int addr
  | DoubleFree string int addr
  | WildWrite string int addr
  | InsideRegion string int addr size_t size_t
  | AssertionFailed

datatype 'a outcome = Returns 'a | Aborts "diag list"

definition zero_header :: header where
  "zero_header = \<lparr>block_size = 0, p_payload = 0, p_end_marker = 0, p_status = 0,
     p_file = [], line = 0, p_next = 0, p_prev = 0\<rparr>"

text \<open>
  The state after static initialisation: \<^verbatim>\<open>mmap\<close> has returned the zero-filled region
  at \<open>buf\<close>, the list is empty and all counters are zero.
\<close>

definition init_state :: "addr \<Rightarrow> state" where
  "init_state buf = \<lparr>hdrs = (\<lambda>_. zero_header), bytes = (\<lambda>_. 0), head = 0,
     default_buffer = \<lparr>buffer = buf, pos = 0, buf_size = push_bit 20 8\<rparr>,
     gstats = \<lparr>nactive = 0, active_size = 0, ntotal = 0, total_size = 0, nfail = 0,
       fail_size = 0, heap_min = 0, heap_max = 0\<rparr>\<rparr>"

section \<open>The block list\<close>

definition add_block :: "addr \<Rightarrow> state \<Rightarrow> state" where
  "add_block p_header s =
     (let s1 = s\<lparr>hdrs := (hdrs s)(p_header := (hdrs s p_header)\<lparr>p_next := head s\<rparr>)\<rparr>;
          s2 = s1\<lparr>hdrs := (hdrs s1)(p_header := (hdrs s1 p_header)\<lparr>p_prev := 0\<rparr>)\<rparr>;
          s3 = (if head s2 \<noteq> 0
                then s2\<lparr>hdrs := (hdrs s2)(head s2 := (hdrs s2 (head s2))\<lparr>p_prev := p_header\<rparr>)\<rparr>
                else s2)
      in s3\<lparr>head := p_header\<rparr>)"

definition remove_block :: "addr \<Rightarrow> state \<Rightarrow> state outcome" where
  "remove_block p_header s =
     (if head s = 0 \<or> p_header = 0 then Returns s
      else
        let p_header_next = p_next (hdrs s p_header);
            p_header_prev = p_prev (hdrs s p_header);
            s1 = (if p_header = head s then s\<lparr>head := p_header_next\<rparr> else s)
        in
          if p_header_next \<noteq> 0 \<and> p_prev (hdrs s1 p_header_next) \<noteq> p_header
          then Aborts [AssertionFailed]
          else
            let s2 = (if p_header_next \<noteq> 0
                      then s1\<lparr>hdrs := (hdrs s1)(p_header_next :=
                             (hdrs s1 p_header_next)\<lparr>p_prev := p_header_prev\<rparr>)\<rparr>
                      else s1)
            in
              if p_header_prev \<noteq> 0 \<and> p_next (hdrs s2 p_header_prev) \<noteq> p_header
              then Aborts [AssertionFailed]
              else
                Returns (if p_header_prev \<noteq> 0
                         then s2\<lparr>hdrs := (hdrs s2)(p_header_prev :=
                                (hdrs s2 p_header_prev)\<lparr>p_next := p_header_next\<rparr>)\<rparr>
                         else s2))"

definition insert_before_block :: "addr \<Rightarrow> addr \<Rightarrow> state \<Rightarrow> state" where
  "insert_before_block p_header_new p_header_next s =
     (let s1 = s\<lparr>hdrs := (hdrs s)(p_header_new :=
                  (hdrs s p_header_new)\<lparr>p_next := p_header_next\<rparr>)\<rparr>;
          s2 = s1\<lparr>hdrs := (hdrs s1)(p_header_new :=
                  (hdrs s1 p_header_new)\<lparr>p_prev := p_prev (hdrs s1 p_header_next)\<rparr>)\<rparr>;
          s3 = (if p_prev (hdrs s2 p_header_next) \<noteq> 0
                then s2\<lparr>hdrs := (hdrs s2)(p_prev (hdrs s2 p_header_next) :=
                       (hdrs s2 (p_prev (hdrs s2 p_header_next)))\<lparr>p_next := p_header_new\<rparr>)\<rparr>
                else s2)
      in s3\<lparr>hdrs := (hdrs s3)(p_header_next :=
                (hdrs s3 p_header_next)\<lparr>p_prev := p_header_new\<rparr>)\<rparr>)"

section \<open>End markers and header checks\<close>

text \<open>
  \<^verbatim>\<open>add_end_marker\<close> stores the marker bytes one by one at increasing addresses;
  \<^verbatim>\<open>is_end_marker_valid\<close> compares them one by one and stops at the first mismatch.
\<close>

fun add_end_marker_from :: "byte list \<Rightarrow> addr \<Rightarrow> (addr \<Rightarrow> byte) \<Rightarrow> (addr \<Rightarrow> byte)" where
  "add_end_marker_from [] ptr m = m"
| "add_end_marker_from (marker # ms) ptr m = add_end_marker_from ms (ptr + 1) (m(ptr := marker))"

definition add_end_marker :: "addr \<Rightarrow> state \<Rightarrow> state" where
  "add_end_marker ptr s = s\<lparr>bytes := add_end_marker_from END_MARKER ptr (bytes s)\<rparr>"

fun is_end_marker_valid_from :: "byte list \<Rightarrow> addr \<Rightarrow> (addr \<Rightarrow> byte) \<Rightarrow> bool" where
  "is_end_marker_valid_from [] ptr m = True"
| "is_end_marker_valid_from (marker # ms) ptr m =
     (if m ptr \<noteq> marker then False else is_end_marker_valid_from ms (ptr + 1) m)"

definition is_end_marker_valid :: "addr \<Rightarrow> state \<Rightarrow> bool" where
  "is_end_marker_valid ptr s = is_end_marker_valid_from END_MARKER ptr (bytes s)"

definition is_header_valid :: "addr \<Rightarrow> addr \<Rightarrow> state \<Rightarrow> bool" where
  "is_header_valid p_header p_payload' s =
     (if p_header mod ALIGNMENT \<noteq> 0 then False
      else if p_payload (hdrs s p_header) \<noteq> 0 \<and> p_payload (hdrs s p_header) \<noteq> p_payload'
      then False
      else True)"

definition is_block_free :: "addr \<Rightarrow> state \<Rightarrow> bool" where
  "is_block_free p_header s = (p_header \<noteq> 0 \<and> p_status (hdrs s p_header) = FREE)"

definition is_overflowing :: "size_t \<Rightarrow> size_t \<Rightarrow> bool" where
  "is_overflowing a b =
     (if a = 0 \<or> b = 0 then False
      else let c = a * b in a \<noteq> c div b \<or> c mod b \<noteq> 0)"

definition get_payload_size :: "addr \<Rightarrow> state \<Rightarrow> size_t" where
  "get_payload_size p_header s =
     (let payload_addr = p_payload (hdrs s p_header)
      in p_end_marker (hdrs s p_header) - payload_addr)"

section \<open>Statistics\<close>

definition add_to_statistics :: "size_t \<Rightarrow> addr \<Rightarrow> state \<Rightarrow> state" where
  "add_to_statistics sz ptr s =
     (let g = gstats s;
          g1 = g\<lparr>ntotal := ntotal g + 1\<rparr>;
          g2 = g1\<lparr>nactive := nactive g1 + 1\<rparr>;
          g3 = g2\<lparr>total_size := total_size g2 + sz\<rparr>;
          g4 = g3\<lparr>active_size := active_size g3 + sz\<rparr>;
          g5 = (if heap_min g4 = 0 \<or> heap_min g4 > ptr then g4\<lparr>heap_min := ptr\<rparr> else g4);
          g6 = (if heap_max g5 = 0 \<or> heap_max g5 < ptr + sz then g5\<lparr>heap_max := ptr + sz\<rparr>
                else g5)
      in s\<lparr>gstats := g6\<rparr>)"

definition remove_from_statistics :: "size_t \<Rightarrow> state \<Rightarrow> state" where
  "remove_from_statistics sz s =
     (let g = gstats s;
          g1 = g\<lparr>nactive := nactive g - 1\<rparr>
      in s\<lparr>gstats := g1\<lparr>active_size := active_size g1 - sz\<rparr>\<rparr>)"

definition update_statistics_for_failure :: "size_t \<Rightarrow> state \<Rightarrow> state" where
  "update_statistics_for_failure sz s =
     (let g = gstats s;
          g1 = g\<lparr>fail_size := fail_size g + sz\<rparr>
      in s\<lparr>gstats := g1\<lparr>nfail := nfail g1 + 1\<rparr>\<rparr>)"

section \<open>Coalescing and the arena frontier\<close>

definition can_coalesce_up :: "addr \<Rightarrow> state \<Rightarrow> bool outcome" where
  "can_coalesce_up p_header s =
     (if \<not> is_block_free (p_prev (hdrs s p_header)) s then Returns False
      else if p_next (hdrs s (p_prev (hdrs s p_header))) \<noteq> p_header then Aborts [AssertionFailed]
      else Returns True)"

definition can_coalesce_down :: "addr \<Rightarrow> state \<Rightarrow> bool outcome" where
  "can_coalesce_down p_header s =
     (if \<not> is_block_free (p_next (hdrs s p_header)) s then Returns False
      else if p_prev (hdrs s (p_next (hdrs s p_header))) \<noteq> p_header then Aborts [AssertionFailed]
      else Returns True)"

definition coalesce :: "addr \<Rightarrow> state \<Rightarrow> state outcome" where
  "coalesce p_header s =
     (case can_coalesce_up p_header s of
        Aborts d \<Rightarrow> Aborts d
      | Returns up \<Rightarrow>
          (case (if up
                 then remove_block (p_prev (hdrs s p_header))
                        (s\<lparr>hdrs := (hdrs s)(p_header := (hdrs s p_header)\<lparr>block_size :=
                           block_size (hdrs s p_header)
                             + block_size (hdrs s (p_prev (hdrs s p_header)))\<rparr>)\<rparr>)
                 else Returns s) of
             Aborts d \<Rightarrow> Aborts d
           | Returns s1 \<Rightarrow>
               (case can_coalesce_down p_header s1 of
                  Aborts d \<Rightarrow> Aborts d
                | Returns down \<Rightarrow>
                    if down
                    then remove_block p_header
                           (s1\<lparr>hdrs := (hdrs s1)(p_next (hdrs s1 p_header) :=
                              (hdrs s1 (p_next (hdrs s1 p_header)))\<lparr>block_size :=
                                 block_size (hdrs s1 (p_next (hdrs s1 p_header)))
                                   + block_size (hdrs s1 p_header)\<rparr>)\<rparr>)
                    else Returns s1)))"

definition move_buffer_pos :: "state \<Rightarrow> state outcome" where
  "move_buffer_pos s =
     (if head s = 0 \<or> p_status (hdrs s (head s)) = ALLOCATED then Returns s
      else
        remove_block (head s)
          (s\<lparr>default_buffer := (default_buffer s)\<lparr>pos :=
               pos (default_buffer s) - block_size (hdrs s (head s))\<rparr>\<rparr>))"

text \<open>
  The scan of \<^verbatim>\<open>report_ptr_inside_alloc_block\<close>. The loop need not end, so the
  result is an option: \<open>None\<close> stands for a scan that never returns, \<open>Some ds\<close> for
  one that returns after printing the lines \<open>ds\<close>.
\<close>

partial_function (option) report_scan :: "addr \<Rightarrow> state \<Rightarrow> addr \<Rightarrow> diag list option" where
  "report_scan ptr_addr s p_header =
     (if p_header = 0 then Some []
      else if p_status (hdrs s p_header) \<noteq> ALLOCATED then report_scan ptr_addr s p_header
      else if p_payload (hdrs s p_header) \<le> ptr_addr \<and> ptr_addr < p_end_marker (hdrs s p_header)
      then Some [InsideRegion (p_file (hdrs s p_header)) (line (hdrs s p_header)) ptr_addr
                   (ptr_addr - p_payload (hdrs s p_header)) (get_payload_size p_header s)]
      else report_scan ptr_addr s (p_next (hdrs s p_header)))"

declare report_scan.simps [code]

definition report_ptr_inside_alloc_block :: "addr \<Rightarrow> state \<Rightarrow> diag list option" where
  "report_ptr_inside_alloc_block ptr s = report_scan ptr s (head s)"

section \<open>Creating blocks\<close>

text \<open>
  The three generators write a header at \<open>ptr\<close> and return \<open>ptr\<close> itself as the
  header pointer; the model returns the new state.
\<close>

definition generate_generic_block :: "addr \<Rightarrow> size_t \<Rightarrow> string \<Rightarrow> int \<Rightarrow> state \<Rightarrow> state" where
  "generate_generic_block ptr bsz file ln s =
     s\<lparr>hdrs := (hdrs s)(ptr := (hdrs s ptr)\<lparr>block_size := bsz,
          p_payload := ptr + sizeof_header, p_file := file, line := ln\<rparr>)\<rparr>"

definition generate_alloc_block ::
    "addr \<Rightarrow> size_t \<Rightarrow> size_t \<Rightarrow> string \<Rightarrow> int \<Rightarrow> state \<Rightarrow> state" where
  "generate_alloc_block ptr bsz payload_size file ln s =
     (let s1 = generate_generic_block ptr bsz file ln s;
          s2 = s1\<lparr>hdrs := (hdrs s1)(ptr := (hdrs s1 ptr)\<lparr>p_status := ALLOCATED\<rparr>)\<rparr>;
          s3 = s2\<lparr>hdrs := (hdrs s2)(ptr := (hdrs s2 ptr)\<lparr>p_end_marker :=
                  p_payload (hdrs s2 ptr) + payload_size\<rparr>)\<rparr>
      in add_end_marker (p_end_marker (hdrs s3 ptr)) s3)"

definition generate_free_block :: "addr \<Rightarrow> size_t \<Rightarrow> string \<Rightarrow> int \<Rightarrow> state \<Rightarrow> state" where
  "generate_free_block ptr bsz file ln s =
     (let s1 = generate_generic_block ptr bsz file ln s;
          s2 = s1\<lparr>hdrs := (hdrs s1)(ptr := (hdrs s1 ptr)\<lparr>p_status := FREE\<rparr>)\<rparr>
      in s2\<lparr>hdrs := (hdrs s2)(ptr := (hdrs s2 ptr)\<lparr>p_end_marker := 0\<rparr>)\<rparr>)"

definition split_block :: "addr \<Rightarrow> size_t \<Rightarrow> state \<Rightarrow> state" where
  "split_block p_header required_size s =
     (let residual_size = block_size (hdrs s p_header) - required_size
      in if residual_size < MIN_BLOCK_SIZE then s
         else
           let ptr = p_header + required_size;
               s1 = generate_free_block ptr residual_size (p_file (hdrs s p_header))
                      (line (hdrs s p_header)) s;
               s2 = insert_before_block ptr p_header s1
           in s2\<lparr>hdrs := (hdrs s2)(p_header := (hdrs s2 p_header)\<lparr>block_size :=
                   required_size\<rparr>)\<rparr>)"

section \<open>Finding space\<close>

text \<open>
  The first-fit walk over the block list, started at a given header. It follows
  \<^verbatim>\<open>p_next\<close> until it meets the null pointer; \<open>None\<close> stands for a walk that never
  returns. The result is the payload pointer (null when no block fits) and the state.
\<close>

partial_function (option) find_freed_block_from ::
    "addr \<Rightarrow> size_t \<Rightarrow> size_t \<Rightarrow> string \<Rightarrow> int \<Rightarrow> state \<Rightarrow> (addr \<times> state) option" where
  "find_freed_block_from p_header required_size payload_size file ln s =
     (if p_header = 0 then Some (0, s)
      else if p_status (hdrs s p_header) = FREE \<and> block_size (hdrs s p_header) \<ge> required_size
      then
        (let s1 = generate_alloc_block p_header (block_size (hdrs s p_header)) payload_size
                    file ln s;
             s2 = split_block p_header required_size s1
         in Some (p_payload (hdrs s2 p_header), s2))
      else find_freed_block_from (p_next (hdrs s p_header)) required_size payload_size file ln s)"

declare find_freed_block_from.simps [code]

definition find_freed_block :: "size_t \<Rightarrow> size_t \<Rightarrow> string \<Rightarrow> int \<Rightarrow> state \<Rightarrow> (addr \<times> state) option" where
  "find_freed_block required_size payload_size file ln s =
     find_freed_block_from (head s) required_size payload_size file ln s"

definition find_free_space :: "size_t \<Rightarrow> size_t \<Rightarrow> string \<Rightarrow> int \<Rightarrow> state \<Rightarrow> (addr \<times> state) option" where
  "find_free_space bsz payload_size file ln s =
     (if buf_size (default_buffer s) - pos (default_buffer s) \<ge> bsz
      then
        (let ptr = buffer (default_buffer s) + pos (default_buffer s);
             s1 = generate_alloc_block ptr bsz payload_size file ln s;
             s2 = add_block ptr s1;
             s3 = s2\<lparr>default_buffer := (default_buffer s2)\<lparr>pos :=
                     pos (default_buffer s2) + bsz\<rparr>\<rparr>
         in Some (p_payload (hdrs s3 ptr), s3))
      else find_freed_block bsz payload_size file ln s)"

section \<open>The four operations\<close>

definition malloc_padding :: "size_t \<Rightarrow> size_t" where
  "malloc_padding sz =
     (let padding = ALIGNMENT - ((sizeof_header + sz) mod ALIGNMENT)
      in if padding < sizeof_END_MARKER then padding + ALIGNMENT else padding)"

definition m61_malloc :: "size_t \<Rightarrow> string \<Rightarrow> int \<Rightarrow> state \<Rightarrow> (addr \<times> state) option" where
  "m61_malloc sz file ln s =
     (let padding = malloc_padding sz
      in if sz > SIZE_MAX - padding - sizeof_header
         then Some (0, update_statistics_for_failure sz s)
         else
           let bsz = sizeof_header + sz + padding
           in case find_free_space bsz sz file ln s of
                None \<Rightarrow> None
              | Some (p, s1) \<Rightarrow>
                  if p = 0 then Some (0, update_statistics_for_failure sz s1)
                  else Some (p, add_to_statistics sz p s1))"

definition m61_free :: "addr \<Rightarrow> string \<Rightarrow> int \<Rightarrow> state \<Rightarrow> state outcome option" where
  "m61_free ptr file ln s =
     (if ptr = 0 then Some (Returns s)
      else if ptr < heap_min (gstats s) \<or> ptr > heap_max (gstats s)
      then Some (Aborts [NotInHeap file ln ptr])
      else
        let p_header = ptr - sizeof_header
        in if \<not> is_header_valid p_header ptr s then Some (Aborts [NotAllocated file ln ptr])
           else if p_status (hdrs s p_header) \<noteq> ALLOCATED
           then
             (if p_status (hdrs s p_header) = FREE then Some (Aborts [DoubleFree file ln ptr])
              else
                case report_ptr_inside_alloc_block ptr s of
                  None \<Rightarrow> None
                | Some ds \<Rightarrow> Some (Aborts (NotAllocated file ln ptr # ds)))
           else if \<not> is_end_marker_valid (p_end_marker (hdrs s p_header)) s
           then Some (Aborts [WildWrite file ln ptr])
           else
             let payload_size = get_payload_size p_header s;
                 s1 = remove_from_statistics payload_size s;
                 s2 = generate_free_block p_header (block_size (hdrs s1 p_header)) file ln s1
             in case coalesce p_header s2 of
                  Aborts d \<Rightarrow> Some (Aborts d)
                | Returns s3 \<Rightarrow> Some (move_buffer_pos s3))"

text \<open>
  \<^verbatim>\<open>memset\<close> and \<^verbatim>\<open>memcpy\<close> on the byte store. The copy reads every source
  byte from the store as it is before the call.
\<close>

definition memset :: "addr \<Rightarrow> byte \<Rightarrow> size_t \<Rightarrow> (addr \<Rightarrow> byte) \<Rightarrow> (addr \<Rightarrow> byte)" where
  "memset dst c n m = (\<lambda>a. if a - dst < n then c else m a)"

definition memcpy :: "addr \<Rightarrow> addr \<Rightarrow> size_t \<Rightarrow> (addr \<Rightarrow> byte) \<Rightarrow> (addr \<Rightarrow> byte)" where
  "memcpy dst src n m = (\<lambda>a. if a - dst < n then m (src + (a - dst)) else m a)"

definition m61_calloc :: "size_t \<Rightarrow> size_t \<Rightarrow> string \<Rightarrow> int \<Rightarrow> state \<Rightarrow> (addr \<times> state) option" where
  "m61_calloc count sz file ln s =
     (if is_overflowing count sz
      then
        (let g = gstats s;
             g1 = g\<lparr>fail_size := fail_size g + sz\<rparr>
         in Some (0, s\<lparr>gstats := g1\<lparr>nfail := nfail g1 + 1\<rparr>\<rparr>))
      else
        case m61_malloc (count * sz) file ln s of
          None \<Rightarrow> None
        | Some (ptr, s1) \<Rightarrow>
            if ptr \<noteq> 0 then Some (ptr, s1\<lparr>bytes := memset ptr 0 (count * sz) (bytes s1)\<rparr>)
            else Some (ptr, s1))"

text \<open>
  The number of bytes \<^verbatim>\<open>m61_realloc\<close> hands to \<^verbatim>\<open>memcpy\<close>: it reads the payload
  size from the header in front of the new pointer.
\<close>

definition realloc_copy_length :: "addr \<Rightarrow> size_t \<Rightarrow> state \<Rightarrow> size_t" where
  "realloc_copy_length new_ptr sz s =
     (let p_header = new_ptr - sizeof_header;
          payload_size = get_payload_size p_header s
      in if sz > payload_size then payload_size else sz)"

definition m61_realloc ::
    "addr \<Rightarrow> size_t \<Rightarrow> string \<Rightarrow> int \<Rightarrow> state \<Rightarrow> (addr \<times> state) outcome option" where
  "m61_realloc ptr sz file ln s =
     (if sz = 0 then Some (Returns (0, s))
      else
        case m61_malloc sz file ln s of
          None \<Rightarrow> None
        | Some (new_ptr, s1) \<Rightarrow>
            if ptr = 0 \<or> new_ptr = 0 then Some (Returns (new_ptr, s1))
            else
              let s2 = s1\<lparr>bytes := memcpy new_ptr ptr (realloc_copy_length new_ptr sz s1)
                             (bytes s1)\<rparr>
              in case m61_free ptr file ln s2 of
                   None \<Rightarrow> None
                 | Some (Aborts d) \<Rightarrow> Some (Aborts d)
                 | Some (Returns s3) \<Rightarrow> Some (Returns (new_ptr, s3)))"

section \<open>Auxiliary notions used in the statements\<close>

text \<open>
  The state in which the frontier branch of \<^verbatim>\<open>find_free_space\<close> leaves the engine: the
  block is generated at the frontier, linked at the head, and the frontier is advanced.
\<close>

definition carve :: "size_t \<Rightarrow> size_t \<Rightarrow> string \<Rightarrow> int \<Rightarrow> state \<Rightarrow> state" where
  "carve bsz psz file ln s =
     (add_block (buffer (default_buffer s) + pos (default_buffer s))
        (generate_alloc_block (buffer (default_buffer s) + pos (default_buffer s)) bsz psz file ln s))
      \<lparr>default_buffer := (default_buffer s)\<lparr>pos := pos (default_buffer s) + bsz\<rparr>\<rparr>"

text \<open>
  No block has the null pointer as its payload address: neither the block that would
  be carved at the frontier nor a free block whose header sits in the last 64 bytes of
  the address space.
\<close>

definition no_null_payload :: "state \<Rightarrow> bool" where
  "no_null_payload s =
     (buffer (default_buffer s) + pos (default_buffer s) + sizeof_header \<noteq> 0
      \<and> p_status (hdrs s (0 - sizeof_header)) \<noteq> FREE)"

text \<open>
  Sequences of calls. \<open>run\<close> performs a sequence of allocate and free calls, one after
  the other, and keeps a record beside the engine: which pointers are live and with which
  requested size, how many frees were performed and how many bytes they gave back (the
  size requested by the matching allocation). The result is \<open>None\<close> as soon as an
  operation fails: an allocation that returns null, a free that aborts or does not return,
  or a free of a pointer that is not live.
\<close>

datatype call = Malloc size_t string int | Free addr string int

record history =
  live :: "addr \<rightharpoonup> size_t"
  nfreed :: "64 word"
  freed_size :: "64 word"

definition no_history :: history where
  "no_history = \<lparr>live = Map.empty, nfreed = 0, freed_size = 0\<rparr>"

fun run :: "call list \<Rightarrow> state \<times> history \<Rightarrow> (state \<times> history) option" where
  "run [] sh = Some sh"
| "run (Malloc sz file ln # cs) (s, h) =
     (case m61_malloc sz file ln s of
        None \<Rightarrow> None
      | Some (p, s') \<Rightarrow>
          if p = 0 then None else run cs (s', h\<lparr>live := (live h)(p \<mapsto> sz)\<rparr>))"
| "run (Free p file ln # cs) (s, h) =
     (case live h p of
        None \<Rightarrow> None
      | Some sz \<Rightarrow>
          (case m61_free p file ln s of
             Some (Returns s') \<Rightarrow>
               run cs (s', h\<lparr>live := (live h)(p := None), nfreed := nfreed h + 1,
                             freed_size := freed_size h + sz\<rparr>)
           | _ \<Rightarrow> None))"

text \<open>
  The walk of the first-fit scan: started at \<open>p\<close> it passes exactly the headers
  \<open>xs\<close>, none of them null and none of them a free block of at least the required
  size, and arrives at \<open>b\<close>.
\<close>

fun scan_path :: "state \<Rightarrow> size_t \<Rightarrow> addr \<Rightarrow> addr list \<Rightarrow> addr \<Rightarrow> bool" where
  "scan_path s r p [] b = (p = b)"
| "scan_path s r p (x # xs) b =
     (p = x \<and> x \<noteq> 0
      \<and> \<not> (p_status (hdrs s x) = FREE \<and> block_size (hdrs s x) \<ge> r)
      \<and> scan_path s r (p_next (hdrs s x)) xs b)"

text \<open>An address or a size is aligned when it is a multiple of \<^verbatim>\<open>ALIGNMENT\<close>.\<close>

definition aligned :: "addr \<Rightarrow> bool" where
  "aligned x = (x mod ALIGNMENT = 0)"

text \<open>
  The alignment invariant: the arena base, the frontier offset and the list head are
  aligned, and so are the block size and the two links of every header.
\<close>

definition aligned_state :: "state \<Rightarrow> bool" where
  "aligned_state s =
     (aligned (buffer (default_buffer s)) \<and> aligned (pos (default_buffer s)) \<and> aligned (head s)
      \<and> (\<forall>p. aligned (block_size (hdrs s p)) \<and> aligned (p_next (hdrs s p))
               \<and> aligned (p_prev (hdrs s p))))"

text \<open>
  Well-formed heaps. The block list is described by the list \<open>xs\<close> of its header
  addresses, head first. \<open>links\<close> says that the headers are doubly linked in this order
  between \<open>pr\<close> and \<open>nx\<close>; \<open>tile\<close> says that the blocks lie next to each other in
  memory, the head block ending at \<open>T\<close> and the last block starting at \<open>B\<close>, every
  block with a positive size; \<open>tags\<close> says that every block is tagged allocated or
  free and that no free block follows a free one (\<open>pf\<close> tells whether the block before
  the first one counts as free).
\<close>

fun hd_or :: "addr list \<Rightarrow> addr \<Rightarrow> addr" where
  "hd_or [] d = d"
| "hd_or (x # xs) d = x"

fun last_or :: "addr list \<Rightarrow> addr \<Rightarrow> addr" where
  "last_or [] d = d"
| "last_or (x # xs) d = last_or xs x"

fun links :: "(addr \<Rightarrow> header) \<Rightarrow> addr \<Rightarrow> addr list \<Rightarrow> addr \<Rightarrow> bool" where
  "links h pr [] nx = True"
| "links h pr (x # xs) nx =
     (p_prev (h x) = pr \<and> p_next (h x) = hd_or xs nx \<and> links h x xs nx)"

fun tile :: "(addr \<Rightarrow> header) \<Rightarrow> nat \<Rightarrow> addr list \<Rightarrow> nat \<Rightarrow> bool" where
  "tile h T [] B = (T = B)"
| "tile h T (x # xs) B =
     (0 < unat (block_size (h x)) \<and> unat x + unat (block_size (h x)) = T
      \<and> tile h (unat x) xs B)"

fun tags :: "(addr \<Rightarrow> header) \<Rightarrow> bool \<Rightarrow> addr list \<Rightarrow> bool" where
  "tags h pf [] = True"
| "tags h pf (x # xs) =
     ((p_status (h x) = ALLOCATED \<or> p_status (h x) = FREE \<and> \<not> pf)
      \<and> tags h (p_status (h x) = FREE) xs)"

definition wf :: "state \<Rightarrow> addr list \<Rightarrow> bool" where
  "wf s xs =
     (0 < unat (buffer (default_buffer s))
      \<and> unat (buffer (default_buffer s)) + unat (buf_size (default_buffer s)) < 2 ^ 64
      \<and> unat (pos (default_buffer s)) \<le> unat (buf_size (default_buffer s))
      \<and> links (hdrs s) 0 xs 0
      \<and> tile (hdrs s) (unat (buffer (default_buffer s)) + unat (pos (default_buffer s))) xs
           (unat (buffer (default_buffer s)))
      \<and> tags (hdrs s) True xs
      \<and> head s = hd_or xs 0)"

text \<open>Static members: everything in a header except the two links.\<close>

definition same_static :: "(addr \<Rightarrow> header) \<Rightarrow> (addr \<Rightarrow> header) \<Rightarrow> bool" where
  "same_static h h' =
     (\<forall>y. block_size (h' y) = block_size (h y) \<and> p_status (h' y) = p_status (h y)
          \<and> p_payload (h' y) = p_payload (h y) \<and> p_end_marker (h' y) = p_end_marker (h y))"

text \<open>
  A heap that is well-formed except for the tags: the state in the middle of a call of
  \<^verbatim>\<open>m61_free\<close>, where a freed block may still lie next to a free block or at the head.
\<close>

definition pwf :: "state \<Rightarrow> addr list \<Rightarrow> bool" where
  "pwf s xs =
     (0 < unat (buffer (default_buffer s))
      \<and> unat (buffer (default_buffer s)) + unat (buf_size (default_buffer s)) < 2 ^ 64
      \<and> unat (pos (default_buffer s)) \<le> unat (buf_size (default_buffer s))
      \<and> links (hdrs s) 0 xs 0
      \<and> tile (hdrs s) (unat (buffer (default_buffer s)) + unat (pos (default_buffer s))) xs
           (unat (buffer (default_buffer s)))
      \<and> head s = hd_or xs 0)"

text \<open>
  What \<^verbatim>\<open>m61_free\<close> checks before it frees the block with header \<open>x\<close>: the payload
  pointer is not null and lies in the recorded heap range, the header passes
  \<^verbatim>\<open>is_header_valid\<close>, the block is allocated and its end marker is intact.
\<close>

definition freeable :: "state \<Rightarrow> addr \<Rightarrow> bool" where
  "freeable s x =
     (x + sizeof_header \<noteq> 0
      \<and> heap_min (gstats s) \<le> x + sizeof_header \<and> x + sizeof_header \<le> heap_max (gstats s)
      \<and> is_header_valid x (x + sizeof_header) s
      \<and> p_status (hdrs s x) = ALLOCATED
      \<and> is_end_marker_valid (p_end_marker (hdrs s x)) s)"

text \<open>
  The record kept by \<open>run\<close> agrees with the heap: the heap is well-formed, and every
  live pointer is the payload pointer of a listed, allocated block whose header gives
  the payload size that was requested.
\<close>

definition tracked :: "state \<Rightarrow> history \<Rightarrow> bool" where
  "tracked s h =
     (\<exists>xs. wf s xs
        \<and> (\<forall>p sz. live h p = Some sz \<longrightarrow>
              p \<noteq> 0 \<and> p - sizeof_header \<in> set xs
              \<and> p_status (hdrs s (p - sizeof_header)) = ALLOCATED
              \<and> get_payload_size (p - sizeof_header) s = sz))"

definition conserved :: "state \<Rightarrow> history \<Rightarrow> bool" where
  "conserved s h =
     (ntotal (gstats s) = nactive (gstats s) + nfreed h
      \<and> total_size (gstats s) = active_size (gstats s) + freed_size h)"

text \<open>
  A sequence of calls of \<^verbatim>\<open>m61_free\<close>, one pointer after the other, as long as the
  calls return.
\<close>

fun free_all :: "addr list \<Rightarrow> string \<Rightarrow> int \<Rightarrow> state \<Rightarrow> state outcome option" where
  "free_all [] f l s = Some (Returns s)"
| "free_all (p # ps) f l s =
     (case m61_free p f l s of
        Some (Returns s') \<Rightarrow> free_all ps f l s'
      | r \<Rightarrow> r)"

section \<open>Basic facts about the operations\<close>

lemma report_scan_stuck:
  assumes "p \<noteq> 0" and "p_status (hdrs s p) \<noteq> ALLOCATED"
  shows "report_scan ptr s p = None"
proof -
  have "\<not> (p' \<noteq> 0 \<and> p_status (hdrs s' p') \<noteq> ALLOCATED)"
    if "report_scan ptr' s' p' = Some y" for ptr' s' p' y
    by (rule report_scan.raw_induct
          [where P = "\<lambda>ptr s p y. \<not> (p \<noteq> 0 \<and> p_status (hdrs s p) \<noteq> ALLOCATED)", OF _ that])
       (auto split: if_splits)
  with assms show ?thesis
    by (cases "report_scan ptr s p") auto
qed

lemma found_payload:
  "p_payload (hdrs (split_block p r (generate_alloc_block p b ps f l s)) p) = p + sizeof_header"
  by (simp add: split_block_def generate_alloc_block_def generate_generic_block_def
      generate_free_block_def insert_before_block_def add_end_marker_def Let_def)

lemma generate_alloc_block_frame:
  "gstats (generate_alloc_block p b ps f l s) = gstats s"
  "default_buffer (generate_alloc_block p b ps f l s) = default_buffer s"
  "head (generate_alloc_block p b ps f l s) = head s"
  by (simp_all add: generate_alloc_block_def generate_generic_block_def add_end_marker_def Let_def)

lemma split_block_frame:
  "gstats (split_block p r s) = gstats s"
  "default_buffer (split_block p r s) = default_buffer s"
  "head (split_block p r s) = head s"
  "bytes (split_block p r s) = bytes s"
  by (simp_all add: split_block_def generate_free_block_def generate_generic_block_def
      insert_before_block_def Let_def)

lemma find_freed_block_from_frame:
  assumes "find_freed_block_from p r ps f l s = Some y"
  shows "gstats (snd y) = gstats s \<and> default_buffer (snd y) = default_buffer s
         \<and> head (snd y) = head s"
  by (rule find_freed_block_from.raw_induct
        [where P = "\<lambda>p r ps f l s y. gstats (snd y) = gstats s
           \<and> default_buffer (snd y) = default_buffer s \<and> head (snd y) = head s", OF _ assms])
     (auto split: if_splits simp: Let_def generate_alloc_block_frame split_block_frame)

lemma find_freed_block_from_null:
  assumes "find_freed_block_from p r ps f l s = Some y"
  shows "fst y = 0 \<longrightarrow> p_status (hdrs s (0 - sizeof_header)) \<noteq> FREE \<longrightarrow> snd y = s"
proof (rule find_freed_block_from.raw_induct
        [where P = "\<lambda>p r ps f l s y. fst y = 0 \<longrightarrow> p_status (hdrs s (0 - sizeof_header)) \<noteq> FREE
           \<longrightarrow> snd y = s", OF _ assms], goal_cases)
  case (1 ff p r ps f l s y)
  show ?case
  proof (cases "p = 0")
    case True
    with 1 show ?thesis by auto
  next
    case False
    show ?thesis
    proof (cases "p_status (hdrs s p) = FREE \<and> r \<le> block_size (hdrs s p)")
      case True
      with False 1(2) have "fst y = p + sizeof_header"
        by (auto simp: Let_def found_payload)
      then have "fst y = 0 \<Longrightarrow> p = 0 - sizeof_header"
        by (simp add: eq_neg_iff_add_eq_0)
      with True show ?thesis by auto
    next
      case nofit: False
      with False 1(2) have "ff (p_next (hdrs s p)) r ps f l s = Some y"
        by auto
      from 1(1)[OF this] show ?thesis .
    qed
  qed
qed

lemmas consts_defs = ALIGNMENT_def sizeof_header_def sizeof_END_MARKER_def SIZE_MAX_def
  MIN_BLOCK_SIZE_def

lemma malloc_padding_0: "malloc_padding 0 = 16"
  by (simp add: malloc_padding_def consts_defs)

lemma find_free_space_frontier:
  assumes "bsz \<le> buf_size (default_buffer s) - pos (default_buffer s)"
  shows "find_free_space bsz psz file ln s
     = Some (buffer (default_buffer s) + pos (default_buffer s) + sizeof_header, carve bsz psz file ln s)"
  using assms
  apply (simp add: find_free_space_def Let_def carve_def)
  apply (simp add: generate_alloc_block_def generate_generic_block_def add_end_marker_def add_block_def Let_def)
  done

lemma carve_fields:
  "p_status (hdrs (carve bsz psz file ln s) (buffer (default_buffer s) + pos (default_buffer s))) = ALLOCATED"
  "block_size (hdrs (carve bsz psz file ln s) (buffer (default_buffer s) + pos (default_buffer s))) = bsz"
  "p_payload (hdrs (carve bsz psz file ln s) (buffer (default_buffer s) + pos (default_buffer s)))
     = buffer (default_buffer s) + pos (default_buffer s) + sizeof_header"
  "p_end_marker (hdrs (carve bsz psz file ln s) (buffer (default_buffer s) + pos (default_buffer s)))
     = buffer (default_buffer s) + pos (default_buffer s) + sizeof_header + psz"
  "gstats (carve bsz psz file ln s) = gstats s"
  "head (carve bsz psz file ln s) = buffer (default_buffer s) + pos (default_buffer s)"
  "pos (default_buffer (carve bsz psz file ln s)) = pos (default_buffer s) + bsz"
  by (simp_all add: carve_def generate_alloc_block_def generate_generic_block_def add_end_marker_def add_block_def Let_def)

lemma add_to_statistics_fields:
  "hdrs (add_to_statistics sz p s) = hdrs s"
  "bytes (add_to_statistics sz p s) = bytes s"
  "head (add_to_statistics sz p s) = head s"
  "default_buffer (add_to_statistics sz p s) = default_buffer s"
  "nactive (gstats (add_to_statistics sz p s)) = nactive (gstats s) + 1"
  "ntotal (gstats (add_to_statistics sz p s)) = ntotal (gstats s) + 1"
  "active_size (gstats (add_to_statistics sz p s)) = active_size (gstats s) + sz"
  "total_size (gstats (add_to_statistics sz p s)) = total_size (gstats s) + sz"
  "nfail (gstats (add_to_statistics sz p s)) = nfail (gstats s)"
  "fail_size (gstats (add_to_statistics sz p s)) = fail_size (gstats s)"
  by (simp_all add: add_to_statistics_def Let_def)

text \<open>
  Claim C3, as stated (an allocate request of size 0 returns null), fails: on the fresh
  arena at address \<open>0x10000\<close> the request of size 0 returns the payload pointer
  \<open>0x10040\<close>, which is not null.
\<close>

theorem malloc_zero_returns_pointer:
  "map_option fst (m61_malloc 0 ''test.cc'' 1 (init_state 0x10000)) = Some 0x10040"
  by (simp add: m61_malloc_def malloc_padding_0 find_free_space_def init_state_def consts_defs
      generate_alloc_block_def generate_generic_block_def add_end_marker_def add_block_def
      add_to_statistics_def Let_def)

text \<open>
  Claim C3, amended: a request of size 0 is not rejected. It is served like any other
  size with an 80-byte block (the header and 16 bytes of padding): whenever the frontier
  has 80 bytes left (and the payload address is not the null address), the call returns
  the payload pointer of a new allocated block whose payload has length 0, and counts
  one more active and one more total allocation and no failure.
\<close>

theorem malloc_zero_size:
  assumes "buf_size (default_buffer s) - pos (default_buffer s) \<ge> 80"
    and "buffer (default_buffer s) + pos (default_buffer s) + sizeof_header \<noteq> 0"
  shows "\<exists>s'. m61_malloc 0 file ln s
           = Some (buffer (default_buffer s) + pos (default_buffer s) + sizeof_header, s')
         \<and> p_status (hdrs s' (buffer (default_buffer s) + pos (default_buffer s))) = ALLOCATED
         \<and> block_size (hdrs s' (buffer (default_buffer s) + pos (default_buffer s))) = 80
         \<and> get_payload_size (buffer (default_buffer s) + pos (default_buffer s)) s' = 0
         \<and> nactive (gstats s') = nactive (gstats s) + 1
         \<and> ntotal (gstats s') = ntotal (gstats s) + 1
         \<and> nfail (gstats s') = nfail (gstats s)"
proof -
  let ?p = "buffer (default_buffer s) + pos (default_buffer s) + sizeof_header"
  have m: "m61_malloc 0 file ln s =
      (case find_free_space 80 0 file ln s of None \<Rightarrow> None
       | Some (p, s1) \<Rightarrow> if p = 0 then Some (0, update_statistics_for_failure 0 s1)
                         else Some (p, add_to_statistics 0 p s1))"
    by (simp add: m61_malloc_def malloc_padding_0 consts_defs)
  have "m61_malloc 0 file ln s = Some (?p, add_to_statistics 0 ?p (carve 80 0 file ln s))"
    unfolding m find_free_space_frontier [OF assms(1)] using assms(2) by simp
  then show ?thesis
    by (simp add: add_to_statistics_fields carve_fields get_payload_size_def)
qed

theorem malloc_zero_size_witness:
  "\<exists>s'. m61_malloc 0 ''test.cc'' 1 (init_state 0x10000) = Some (0x10040, s')
     \<and> p_status (hdrs s' 0x10000) = ALLOCATED
     \<and> block_size (hdrs s' 0x10000) = 80
     \<and> get_payload_size 0x10000 s' = 0
     \<and> nactive (gstats s') = 1 \<and> ntotal (gstats s') = 1 \<and> nfail (gstats s') = 0"
  using malloc_zero_size [of "init_state 0x10000" "''test.cc''" 1]
  by (simp add: init_state_def sizeof_header_def)

lemma update_statistics_for_failure_fields:
  "hdrs (update_statistics_for_failure sz s) = hdrs s"
  "bytes (update_statistics_for_failure sz s) = bytes s"
  "head (update_statistics_for_failure sz s) = head s"
  "default_buffer (update_statistics_for_failure sz s) = default_buffer s"
  "nactive (gstats (update_statistics_for_failure sz s)) = nactive (gstats s)"
  "ntotal (gstats (update_statistics_for_failure sz s)) = ntotal (gstats s)"
  "active_size (gstats (update_statistics_for_failure sz s)) = active_size (gstats s)"
  "total_size (gstats (update_statistics_for_failure sz s)) = total_size (gstats s)"
  "nfail (gstats (update_statistics_for_failure sz s)) = nfail (gstats s) + 1"
  "fail_size (gstats (update_statistics_for_failure sz s)) = fail_size (gstats s) + sz"
  "heap_min (gstats (update_statistics_for_failure sz s)) = heap_min (gstats s)"
  "heap_max (gstats (update_statistics_for_failure sz s)) = heap_max (gstats s)"
  by (simp_all add: update_statistics_for_failure_def Let_def)

lemma find_free_space_gstats:
  assumes "find_free_space bsz psz file ln s = Some (p, s1)"
  shows "gstats s1 = gstats s"
proof (cases "bsz \<le> buf_size (default_buffer s) - pos (default_buffer s)")
  case True
  from find_free_space_frontier [OF True] assms show ?thesis
    by (auto simp: carve_fields)
next
  case False
  with assms have "find_freed_block_from (head s) bsz psz file ln s = Some (p, s1)"
    by (simp add: find_free_space_def find_freed_block_def)
  from find_freed_block_from_frame [OF this] show ?thesis by simp
qed

text \<open>Every way in which the allocation can return the null pointer.\<close>

lemma m61_malloc_null_gstats:
  assumes "m61_malloc sz file ln s = Some (0, s')"
  shows "gstats s' = gstats (update_statistics_for_failure sz s)"
proof (cases "sz > SIZE_MAX - malloc_padding sz - sizeof_header")
  case True
  with assms show ?thesis by (simp add: m61_malloc_def Let_def)
next
  case False
  let ?bsz = "sizeof_header + sz + malloc_padding sz"
  from False assms obtain p s1 where
    fs: "find_free_space ?bsz sz file ln s = Some (p, s1)"
    by (auto simp: m61_malloc_def Let_def split: option.splits)
  with False assms have "p = 0" and s': "s' = update_statistics_for_failure sz s1"
    by (auto simp: m61_malloc_def Let_def split: if_splits)
  from find_free_space_gstats [OF fs] s' show ?thesis
    by (simp add: update_statistics_for_failure_def Let_def)
qed

text \<open>
  Claim C9: every failed allocation returns null and records the requested size. An
  overflowing size computation in \<^verbatim>\<open>m61_malloc\<close> returns null with the failure
  recorded; so does exhaustion (no room at the frontier and no block found by the scan);
  an overflowing product in \<^verbatim>\<open>m61_calloc\<close> returns null and records the element size
  \<open>sz\<close>, not \<open>count * sz\<close>. Whenever \<^verbatim>\<open>m61_malloc\<close> returns null, the failure count
  has grown by one, the failed bytes by exactly the requested size \<open>sz\<close> (never by the
  block size), and no other counter has changed.
\<close>

theorem failed_allocation_statistics:
  "(sz > SIZE_MAX - malloc_padding sz - sizeof_header \<longrightarrow>
      m61_malloc sz file ln s = Some (0, update_statistics_for_failure sz s))
   \<and> (\<not> sz > SIZE_MAX - malloc_padding sz - sizeof_header
        \<and> \<not> sizeof_header + sz + malloc_padding sz
               \<le> buf_size (default_buffer s) - pos (default_buffer s)
        \<and> find_freed_block (sizeof_header + sz + malloc_padding sz) sz file ln s = Some (0, s1) \<longrightarrow>
      m61_malloc sz file ln s = Some (0, update_statistics_for_failure sz s1))
   \<and> (is_overflowing count sz \<longrightarrow>
      m61_calloc count sz file ln s = Some (0, update_statistics_for_failure sz s))
   \<and> (m61_malloc sz file ln s = Some (0, s') \<longrightarrow>
      nfail (gstats s') = nfail (gstats s) + 1
      \<and> fail_size (gstats s') = fail_size (gstats s) + sz
      \<and> nactive (gstats s') = nactive (gstats s)
      \<and> active_size (gstats s') = active_size (gstats s)
      \<and> ntotal (gstats s') = ntotal (gstats s)
      \<and> total_size (gstats s') = total_size (gstats s))
   \<and> nfail (gstats (update_statistics_for_failure sz s)) = nfail (gstats s) + 1
   \<and> fail_size (gstats (update_statistics_for_failure sz s)) = fail_size (gstats s) + sz"
proof (intro conjI impI)
  assume "sz > SIZE_MAX - malloc_padding sz - sizeof_header"
  then show "m61_malloc sz file ln s = Some (0, update_statistics_for_failure sz s)"
    by (simp add: m61_malloc_def Let_def)
next
  assume "\<not> sz > SIZE_MAX - malloc_padding sz - sizeof_header
        \<and> \<not> sizeof_header + sz + malloc_padding sz
               \<le> buf_size (default_buffer s) - pos (default_buffer s)
        \<and> find_freed_block (sizeof_header + sz + malloc_padding sz) sz file ln s = Some (0, s1)"
  then show "m61_malloc sz file ln s = Some (0, update_statistics_for_failure sz s1)"
    by (simp add: m61_malloc_def find_free_space_def Let_def)
next
  assume "is_overflowing count sz"
  then show "m61_calloc count sz file ln s = Some (0, update_statistics_for_failure sz s)"
    by (simp add: m61_calloc_def update_statistics_for_failure_def Let_def)
next
  assume a: "m61_malloc sz file ln s = Some (0, s')"
  note g = m61_malloc_null_gstats [OF a]
  show "nfail (gstats s') = nfail (gstats s) + 1"
    and "fail_size (gstats s') = fail_size (gstats s) + sz"
    and "nactive (gstats s') = nactive (gstats s)"
    and "active_size (gstats s') = active_size (gstats s)"
    and "ntotal (gstats s') = ntotal (gstats s)"
    and "total_size (gstats s') = total_size (gstats s)"
    by (simp_all add: g update_statistics_for_failure_fields)
qed (simp_all add: update_statistics_for_failure_fields)

theorem failed_allocation_statistics_witness:
  "m61_malloc 0xFFFFFFFFFFFFFFFE ''test.cc'' 1 (init_state 0x10000)
     = Some (0, update_statistics_for_failure 0xFFFFFFFFFFFFFFFE (init_state 0x10000))
   \<and> m61_malloc 8388608 ''test.cc'' 1 (init_state 0x10000)
     = Some (0, update_statistics_for_failure 8388608 (init_state 0x10000))
   \<and> m61_calloc 0x8000000000000000 2 ''test.cc'' 1 (init_state 0x10000)
     = Some (0, update_statistics_for_failure 2 (init_state 0x10000))
   \<and> nfail (gstats (update_statistics_for_failure 0xFFFFFFFFFFFFFFFE (init_state 0x10000))) = 1
   \<and> fail_size (gstats (update_statistics_for_failure 0xFFFFFFFFFFFFFFFE (init_state 0x10000)))
       = 0xFFFFFFFFFFFFFFFE
   \<and> fail_size (gstats (update_statistics_for_failure 2 (init_state 0x10000))) = 2"
proof -
  have p1: "malloc_padding 0xFFFFFFFFFFFFFFFE = 18"
    by (simp add: malloc_padding_def consts_defs)
  have p2: "malloc_padding 8388608 = 16"
    by (simp add: malloc_padding_def consts_defs)
  have h1: "(0xFFFFFFFFFFFFFFFE :: size_t) > SIZE_MAX - malloc_padding 0xFFFFFFFFFFFFFFFE - sizeof_header"
    by (simp add: p1 consts_defs)
  have h2: "\<not> (8388608 :: size_t) > SIZE_MAX - malloc_padding 8388608 - sizeof_header
        \<and> \<not> sizeof_header + 8388608 + malloc_padding 8388608
               \<le> buf_size (default_buffer (init_state 0x10000)) - pos (default_buffer (init_state 0x10000))
        \<and> find_freed_block (sizeof_header + 8388608 + malloc_padding 8388608) 8388608 ''test.cc'' 1 (init_state 0x10000)
            = Some (0, init_state 0x10000)"
    by (simp add: p2 consts_defs find_freed_block_def find_freed_block_from.simps init_state_def)
  have h3: "is_overflowing 0x8000000000000000 2"
    by (simp add: is_overflowing_def)
  from failed_allocation_statistics
         [of "0xFFFFFFFFFFFFFFFE" "''test.cc''" 1 "init_state 0x10000" _ 0 _]
       failed_allocation_statistics
         [of 8388608 "''test.cc''" 1 "init_state 0x10000" "init_state 0x10000" 0 _]
       failed_allocation_statistics
         [of 2 "''test.cc''" 1 "init_state 0x10000" _ "0x8000000000000000" _]
       h1 h2 h3
  show ?thesis
    by (simp add: init_state_def)
qed

lemma carve_head: "head (carve bsz psz file ln s) = buffer (default_buffer s) + pos (default_buffer s)"
  by (simp add: carve_fields)

lemma m61_malloc_null_state:
  assumes "m61_malloc sz file ln s = Some (0, s')" and "no_null_payload s"
  shows "s' = update_statistics_for_failure sz s"
proof (cases "sz > SIZE_MAX - malloc_padding sz - sizeof_header")
  case True
  with assms show ?thesis by (simp add: m61_malloc_def Let_def)
next
  case False
  let ?bsz = "sizeof_header + sz + malloc_padding sz"
  from False assms obtain p s1 where
    fs: "find_free_space ?bsz sz file ln s = Some (p, s1)"
    by (auto simp: m61_malloc_def Let_def split: option.splits)
  with False assms have p: "p = 0" and s': "s' = update_statistics_for_failure sz s1"
    by (auto simp: m61_malloc_def Let_def split: if_splits)
  have "s1 = s"
  proof (cases "?bsz \<le> buf_size (default_buffer s) - pos (default_buffer s)")
    case True
    from find_free_space_frontier [OF True] fs p assms(2) show ?thesis
      by (simp add: no_null_payload_def)
  next
    case False
    with fs p have "find_freed_block_from (head s) ?bsz sz file ln s = Some (0, s1)"
      by (simp add: find_free_space_def find_freed_block_def)
    from find_freed_block_from_null [OF this] assms(2) show ?thesis
      by (simp add: no_null_payload_def)
  qed
  with s' show ?thesis by simp
qed

text \<open>
  Claim C2: when the new size is zero or the allocation of the fresh block fails
  (\<^verbatim>\<open>m61_malloc\<close> returns null), \<^verbatim>\<open>m61_realloc\<close> returns null and leaves the original
  block untouched: all headers (so the block stays allocated and is not freed), all bytes
  (its contents), the list head and the frontier are the same after the call, and so are
  the active count and the active bytes.
\<close>

theorem realloc_failure_keeps_original:
  assumes "sz = 0 \<or> map_option fst (m61_malloc sz file ln s) = Some 0"
    and "no_null_payload s"
  shows "\<exists>s'. m61_realloc ptr sz file ln s = Some (Returns (0, s'))
           \<and> hdrs s' = hdrs s \<and> bytes s' = bytes s \<and> head s' = head s
           \<and> default_buffer s' = default_buffer s
           \<and> nactive (gstats s') = nactive (gstats s)
           \<and> active_size (gstats s') = active_size (gstats s)"
proof (cases "sz = 0")
  case True
  then show ?thesis by (simp add: m61_realloc_def)
next
  case False
  with assms(1) obtain s1 where m: "m61_malloc sz file ln s = Some (0, s1)"
    by (cases "m61_malloc sz file ln s") auto
  from m61_malloc_null_state [OF m assms(2)] have "s1 = update_statistics_for_failure sz s" .
  with False m show ?thesis
    by (simp add: m61_realloc_def update_statistics_for_failure_fields)
qed

theorem realloc_failure_keeps_original_witness:
  "\<exists>s'. m61_realloc 0x10040 0xFFFFFFFFFFFFFFFE ''test.cc'' 2
            (snd (the (m61_malloc 10000 ''test.cc'' 1 (init_state 0x10000))))
          = Some (Returns (0, s'))
     \<and> p_status (hdrs s' 0x10000) = ALLOCATED
     \<and> get_payload_size 0x10000 s' = 10000
     \<and> nactive (gstats s') = 1 \<and> active_size (gstats s') = 10000"
proof -
  define s1 where "s1 = snd (the (m61_malloc 10000 ''test.cc'' 1 (init_state 0x10000)))"
  have h1: "0xFFFFFFFFFFFFFFFE = (0 :: size_t)
      \<or> map_option fst (m61_malloc 0xFFFFFFFFFFFFFFFE ''test.cc'' 2 s1) = Some 0"
    unfolding s1_def by code_simp
  have h2: "no_null_payload s1"
    unfolding s1_def by code_simp
  have f: "p_status (hdrs s1 0x10000) = ALLOCATED" "get_payload_size 0x10000 s1 = 10000"
    "nactive (gstats s1) = 1" "active_size (gstats s1) = 10000"
    unfolding s1_def by code_simp+
  from realloc_failure_keeps_original [OF h1 h2, of "0x10040"] f
  show ?thesis
    unfolding s1_def [symmetric] by (auto simp: get_payload_size_def)
qed

text \<open>
  The list operations write only the link members and \<^verbatim>\<open>block_size\<close>; coalescing and
  the retraction of the frontier leave status, payload pointer, bytes and statistics alone.
\<close>

lemma remove_block_static:
  assumes "remove_block p s = Returns s'"
  shows "(\<forall>q. p_status (hdrs s' q) = p_status (hdrs s q)
            \<and> p_payload (hdrs s' q) = p_payload (hdrs s q))
         \<and> gstats s' = gstats s \<and> bytes s' = bytes s"
  using assms
  by (auto simp: remove_block_def Let_def split: if_splits)

lemma coalesce_static:
  assumes "coalesce p s = Returns s'"
  shows "p_status (hdrs s' q) = p_status (hdrs s q)"
    and "p_payload (hdrs s' q) = p_payload (hdrs s q)"
    and "gstats s' = gstats s" and "bytes s' = bytes s"
proof -
  from assms obtain up s1 down where
    up: "can_coalesce_up p s = Returns up"
    and s1: "(if up then remove_block (p_prev (hdrs s p))
                (s\<lparr>hdrs := (hdrs s)(p := (hdrs s p)\<lparr>block_size :=
                   block_size (hdrs s p) + block_size (hdrs s (p_prev (hdrs s p)))\<rparr>)\<rparr>)
              else Returns s) = Returns s1"
    and down: "can_coalesce_down p s1 = Returns down"
    and s': "(if down then remove_block p
                (s1\<lparr>hdrs := (hdrs s1)(p_next (hdrs s1 p) := (hdrs s1 (p_next (hdrs s1 p)))
                   \<lparr>block_size := block_size (hdrs s1 (p_next (hdrs s1 p)))
                      + block_size (hdrs s1 p)\<rparr>)\<rparr>)
              else Returns s1) = Returns s'"
    by (auto simp: coalesce_def split: outcome.splits)
  have a: "p_status (hdrs s1 q) = p_status (hdrs s q) \<and> p_payload (hdrs s1 q) = p_payload (hdrs s q)
      \<and> gstats s1 = gstats s \<and> bytes s1 = bytes s" for q
  proof (cases up)
    case True
    with s1 show ?thesis
      by (auto dest: remove_block_static)
  next
    case False
    with s1 show ?thesis by simp
  qed
  have b: "p_status (hdrs s' q) = p_status (hdrs s1 q) \<and> p_payload (hdrs s' q) = p_payload (hdrs s1 q)
      \<and> gstats s' = gstats s1 \<and> bytes s' = bytes s1" for q
  proof (cases down)
    case True
    with s' show ?thesis
      by (auto dest: remove_block_static)
  next
    case False
    with s' show ?thesis by simp
  qed
  from a b show "p_status (hdrs s' q) = p_status (hdrs s q)"
    and "p_payload (hdrs s' q) = p_payload (hdrs s q)"
    and "gstats s' = gstats s" and "bytes s' = bytes s"
    by simp_all
qed

lemma move_buffer_pos_static:
  assumes "move_buffer_pos s = Returns s'"
  shows "p_status (hdrs s' q) = p_status (hdrs s q)"
    and "p_payload (hdrs s' q) = p_payload (hdrs s q)"
    and "gstats s' = gstats s" and "bytes s' = bytes s"
proof -
  have "p_status (hdrs s' q) = p_status (hdrs s q) \<and> p_payload (hdrs s' q) = p_payload (hdrs s q)
      \<and> gstats s' = gstats s \<and> bytes s' = bytes s"
  proof (cases "head s = 0 \<or> p_status (hdrs s (head s)) = ALLOCATED")
    case True
    with assms show ?thesis by (simp add: move_buffer_pos_def)
  next
    case False
    with assms show ?thesis
      by (auto simp: move_buffer_pos_def dest: remove_block_static)
  qed
  then show "p_status (hdrs s' q) = p_status (hdrs s q)"
    and "p_payload (hdrs s' q) = p_payload (hdrs s q)"
    and "gstats s' = gstats s" and "bytes s' = bytes s"
    by simp_all
qed

text \<open>What a call of \<^verbatim>\<open>m61_free\<close> that returns has checked and done.\<close>

lemma m61_free_returns:
  assumes "m61_free ptr file ln s = Some (Returns s')" and "ptr \<noteq> 0"
  obtains s2 s3 where
    "\<not> ptr < heap_min (gstats s)" "\<not> ptr > heap_max (gstats s)"
    "is_header_valid (ptr - sizeof_header) ptr s"
    "p_status (hdrs s (ptr - sizeof_header)) = ALLOCATED"
    "is_end_marker_valid (p_end_marker (hdrs s (ptr - sizeof_header))) s"
    "s2 = generate_free_block (ptr - sizeof_header) (block_size (hdrs s (ptr - sizeof_header)))
            file ln (remove_from_statistics (get_payload_size (ptr - sizeof_header) s) s)"
    "coalesce (ptr - sizeof_header) s2 = Returns s3"
    "move_buffer_pos s3 = Returns s'"
proof -
  from assms have "\<not> ptr < heap_min (gstats s)" "\<not> ptr > heap_max (gstats s)"
    by (auto simp: m61_free_def split: if_splits)
  moreover from assms have "is_header_valid (ptr - sizeof_header) ptr s"
    by (auto simp: m61_free_def Let_def split: if_splits)
  moreover from assms have st: "p_status (hdrs s (ptr - sizeof_header)) = ALLOCATED"
    by (auto simp: m61_free_def Let_def split: if_splits option.splits)
  moreover from assms st have
    em: "is_end_marker_valid (p_end_marker (hdrs s (ptr - sizeof_header))) s"
    by (auto simp: m61_free_def Let_def split: if_splits)
  moreover
  define s2 where "s2 = generate_free_block (ptr - sizeof_header)
     (block_size (hdrs s (ptr - sizeof_header))) file ln
     (remove_from_statistics (get_payload_size (ptr - sizeof_header) s) s)"
  have bs: "block_size (hdrs (remove_from_statistics n s) q) = block_size (hdrs s q)" for n q
    by (simp add: remove_from_statistics_def Let_def)
  from assms calculation have
    "(case coalesce (ptr - sizeof_header) s2 of Aborts d \<Rightarrow> Some (Aborts d)
       | Returns s3 \<Rightarrow> Some (move_buffer_pos s3)) = Some (Returns s')"
    by (simp add: m61_free_def Let_def s2_def bs)
  then obtain s3 where "coalesce (ptr - sizeof_header) s2 = Returns s3"
    "move_buffer_pos s3 = Returns s'"
    by (auto split: outcome.splits)
  ultimately show ?thesis using that s2_def by blast
qed

text \<open>
  Claim C8: when a first call of \<^verbatim>\<open>m61_free\<close> on a non-null pointer has returned
  (as it does for a pointer that a successful allocation returned), a second call on the
  same pointer, with nothing in between, prints the double-free diagnostic and aborts.
\<close>

theorem double_free_aborts:
  assumes "ptr \<noteq> 0" and "m61_free ptr file ln s = Some (Returns s')"
  shows "m61_free ptr file' ln' s' = Some (Aborts [DoubleFree file' ln' ptr])"
proof -
  let ?h = "ptr - sizeof_header"
  from m61_free_returns [OF assms(2,1)] obtain s2 s3 where
    r: "\<not> ptr < heap_min (gstats s)" "\<not> ptr > heap_max (gstats s)"
    and v: "is_header_valid ?h ptr s"
    and s2: "s2 = generate_free_block ?h (block_size (hdrs s ?h)) file ln
               (remove_from_statistics (get_payload_size ?h s) s)"
    and c: "coalesce ?h s2 = Returns s3" and m: "move_buffer_pos s3 = Returns s'"
    by blast
  have s2f: "p_status (hdrs s2 ?h) = FREE" "p_payload (hdrs s2 ?h) = ptr"
    "heap_min (gstats s2) = heap_min (gstats s)" "heap_max (gstats s2) = heap_max (gstats s)"
    by (simp_all add: s2 generate_free_block_def generate_generic_block_def
        remove_from_statistics_def Let_def)
  have s'f: "p_status (hdrs s' ?h) = FREE" "p_payload (hdrs s' ?h) = ptr"
    "heap_min (gstats s') = heap_min (gstats s)" "heap_max (gstats s') = heap_max (gstats s)"
    by (simp_all add: move_buffer_pos_static [OF m] coalesce_static [OF c] s2f)
  from v have "?h mod ALIGNMENT = 0"
    by (simp add: is_header_valid_def split: if_splits)
  with s'f have v': "is_header_valid ?h ptr s'"
    by (simp add: is_header_valid_def)
  have ne: "FREE \<noteq> ALLOCATED"
    by (simp add: FREE_def ALLOCATED_def)
  from assms(1) r v' s'f ne show ?thesis
    by (simp add: m61_free_def Let_def)
qed

theorem double_free_aborts_witness:
  "(0x10040 :: addr) \<noteq> 0
   \<and> map_option fst (m61_malloc 100 ''test.cc'' 1 (init_state 0x10000)) = Some 0x10040
   \<and> (\<exists>s'. m61_free 0x10040 ''test.cc'' 2
              (snd (the (m61_malloc 100 ''test.cc'' 1 (init_state 0x10000)))) = Some (Returns s')
          \<and> m61_free 0x10040 ''test.cc'' 3 s' = Some (Aborts [DoubleFree ''test.cc'' 3 0x10040]))"
proof -
  define s1 where "s1 = snd (the (m61_malloc 100 ''test.cc'' 1 (init_state 0x10000)))"
  have p: "map_option fst (m61_malloc 100 ''test.cc'' 1 (init_state 0x10000)) = Some 0x10040"
    by code_simp
  have "case m61_free 0x10040 ''test.cc'' 2 s1 of Some (Returns s') \<Rightarrow> True | _ \<Rightarrow> False"
    unfolding s1_def by code_simp
  then obtain s' where f: "m61_free 0x10040 ''test.cc'' 2 s1 = Some (Returns s')"
    by (auto split: option.splits outcome.splits)
  have n: "(0x10040 :: addr) \<noteq> 0" by simp
  from double_free_aborts [OF n f, of "''test.cc''" 3] f p n show ?thesis
    unfolding s1_def by blast
qed

text \<open>
  Claim C4 fails on the code. Three blocks are allocated and the middle one is freed, so
  the list holds a free block between the head and the oldest block. Freeing a pointer
  64 bytes inside the payload of the oldest block recovers a header whose status is
  neither of the two tags; the scan passes the head, reaches the free block and stays on
  it: the call never returns, so nothing is reported about the enclosing block and the
  process does not abort.
\<close>

theorem free_inside_payload_never_returns:
  "(case run [Malloc 100 ''test.cc'' 1, Malloc 10 ''test.cc'' 2, Malloc 10 ''test.cc'' 3,
              Free 0x100F0 ''test.cc'' 4] (init_state 0x10000, no_history) of
      None \<Rightarrow> False
    | Some (s, h) \<Rightarrow>
        live h 0x10040 = Some 100
        \<and> p_status (hdrs s (0x10080 - sizeof_header)) \<noteq> ALLOCATED
        \<and> p_status (hdrs s (0x10080 - sizeof_header)) \<noteq> FREE
        \<and> m61_free 0x10080 ''test.cc'' 5 s = None)"
proof -
  let ?r = "run [Malloc 100 ''test.cc'' 1, Malloc 10 ''test.cc'' 2, Malloc 10 ''test.cc'' 3,
              Free 0x100F0 ''test.cc'' 4] (init_state 0x10000, no_history)"
  have "case ?r of None \<Rightarrow> False
    | Some (s, h) \<Rightarrow> live h 0x10040 = Some 100
        \<and> 0x10080 \<noteq> (0::addr)
        \<and> \<not> 0x10080 < heap_min (gstats s) \<and> \<not> 0x10080 > heap_max (gstats s)
        \<and> is_header_valid (0x10080 - sizeof_header) 0x10080 s
        \<and> p_status (hdrs s (0x10080 - sizeof_header)) \<noteq> ALLOCATED
        \<and> p_status (hdrs s (0x10080 - sizeof_header)) \<noteq> FREE
        \<and> head s = 0x10110
        \<and> p_status (hdrs s 0x10110) = ALLOCATED
        \<and> \<not> (p_payload (hdrs s 0x10110) \<le> 0x10080 \<and> 0x10080 < p_end_marker (hdrs s 0x10110))
        \<and> p_next (hdrs s 0x10110) = 0x100B0
        \<and> p_status (hdrs s 0x100B0) \<noteq> ALLOCATED"
    by code_simp
  then obtain s h where r: "?r = Some (s, h)"
    and f: "live h 0x10040 = Some 100"
      "\<not> 0x10080 < heap_min (gstats s)" "\<not> 0x10080 > heap_max (gstats s)"
      "is_header_valid (0x10080 - sizeof_header) 0x10080 s"
      "p_status (hdrs s (0x10080 - sizeof_header)) \<noteq> ALLOCATED"
      "p_status (hdrs s (0x10080 - sizeof_header)) \<noteq> FREE"
    and l: "head s = 0x10110" "p_status (hdrs s 0x10110) = ALLOCATED"
      "\<not> (p_payload (hdrs s 0x10110) \<le> 0x10080 \<and> 0x10080 < p_end_marker (hdrs s 0x10110))"
      "p_next (hdrs s 0x10110) = 0x100B0" "p_status (hdrs s 0x100B0) \<noteq> ALLOCATED"
    by (auto split: option.splits)
  have "report_scan 0x10080 s 0x100B0 = None"
    by (rule report_scan_stuck) (use l in simp_all)
  then have "report_scan 0x10080 s 0x10110 = None"
    using l by (subst report_scan.simps) simp
  then have "report_ptr_inside_alloc_block 0x10080 s = None"
    by (simp add: report_ptr_inside_alloc_block_def l)
  with f have "m61_free 0x10080 ''test.cc'' 5 s = None"
    by (simp add: m61_free_def Let_def)
  with r f show ?thesis by simp
qed

lemma find_freed_block_from_path:
  assumes "scan_path s r p xs b"
  shows "find_freed_block_from p r ps f l s = find_freed_block_from b r ps f l s"
  using assms
proof (induction xs arbitrary: p)
  case Nil
  then show ?case by simp
next
  case (Cons x xs)
  then have "find_freed_block_from p r ps f l s
      = find_freed_block_from (p_next (hdrs s x)) r ps f l s"
    by (subst find_freed_block_from.simps) auto
  with Cons show ?case by simp
qed

lemma find_freed_block_from_found:
  assumes "b \<noteq> 0" and "p_status (hdrs s b) = FREE" and "block_size (hdrs s b) \<ge> r"
  shows "find_freed_block_from b r ps f l s
     = Some (b + sizeof_header,
         split_block b r (generate_alloc_block b (block_size (hdrs s b)) ps f l s))"
  using assms
  by (subst find_freed_block_from.simps) (simp add: Let_def found_payload)

lemma generate_alloc_block_hdrs:
  "hdrs (generate_alloc_block p b ps f l s)
     = (hdrs s)(p := (hdrs s p)\<lparr>block_size := b, p_payload := p + sizeof_header,
          p_file := f, line := l, p_status := ALLOCATED,
          p_end_marker := p + sizeof_header + ps\<rparr>)"
  by (simp add: generate_alloc_block_def generate_generic_block_def add_end_marker_def Let_def)

lemma generate_alloc_block_bytes:
  "bytes (generate_alloc_block p b ps f l s)
     = add_end_marker_from END_MARKER (p + sizeof_header + ps) (bytes s)"
  by (simp add: generate_alloc_block_def generate_generic_block_def add_end_marker_def Let_def)

lemma end_marker_written:
  "is_end_marker_valid_from END_MARKER q (add_end_marker_from END_MARKER q m)"
  by (simp add: END_MARKER_def)

lemma split_block_none:
  assumes "block_size (hdrs s p) - r < MIN_BLOCK_SIZE"
  shows "split_block p r s = s"
  using assms by (simp add: split_block_def Let_def)

lemma split_block_hdrs:
  assumes "\<not> block_size (hdrs s p) - r < MIN_BLOCK_SIZE" and "r \<noteq> 0"
    and "p_prev (hdrs s p) \<noteq> p + r"
  shows "block_size (hdrs (split_block p r s) p) = r"
    and "p_status (hdrs (split_block p r s) p) = p_status (hdrs s p)"
    and "p_end_marker (hdrs (split_block p r s) p) = p_end_marker (hdrs s p)"
    and "p_prev (hdrs (split_block p r s) p) = p + r"
    and "p_status (hdrs (split_block p r s) (p + r)) = FREE"
    and "block_size (hdrs (split_block p r s) (p + r)) = block_size (hdrs s p) - r"
    and "p_next (hdrs (split_block p r s) (p + r)) = p"
    and "p_prev (hdrs (split_block p r s) (p + r)) = p_prev (hdrs s p)"
    and "p_prev (hdrs s p) \<noteq> 0 \<Longrightarrow> p_next (hdrs (split_block p r s) (p_prev (hdrs s p))) = p + r"
  using assms
  by (auto simp: split_block_def generate_free_block_def generate_generic_block_def
      insert_before_block_def Let_def)

lemma carve_links:
  "p_next (hdrs (carve bsz psz file ln s) (buffer (default_buffer s) + pos (default_buffer s)))
     = head s"
  "bytes (carve bsz psz file ln s)
     = add_end_marker_from END_MARKER
         (buffer (default_buffer s) + pos (default_buffer s) + sizeof_header + psz) (bytes s)"
  by (simp_all add: carve_def generate_alloc_block_def generate_generic_block_def
      add_end_marker_def add_block_def Let_def)

text \<open>
  Claim C7: \<^verbatim>\<open>find_free_space\<close> tries the frontier first: whenever the remaining
  capacity is at least the block size, the block is carved there, linked at the head,
  marked allocated with its end marker written, and the frontier advances. Only otherwise
  the list is scanned from the head along \<^verbatim>\<open>p_next\<close>: when the walk reaches the null
  pointer without meeting a fitting block the result is null and nothing has changed; the
  first free block \<open>b\<close> of at least the required size is converted to an allocated
  block. When its leftover is below the minimum block size the block keeps its size;
  otherwise a free block of the leftover size is created at \<open>b + bsz\<close> (the tail of
  the found region), linked immediately before \<open>b\<close> (between \<open>b\<close> and its former
  predecessor), and \<open>b\<close> is shrunk to exactly the required size.
\<close>

theorem frontier_then_first_fit:
  "(bsz \<le> buf_size (default_buffer s) - pos (default_buffer s) \<longrightarrow>
      (let fr = buffer (default_buffer s) + pos (default_buffer s);
           s' = carve bsz psz file ln s
       in find_free_space bsz psz file ln s = Some (fr + sizeof_header, s')
          \<and> head s' = fr \<and> p_next (hdrs s' fr) = head s
          \<and> p_status (hdrs s' fr) = ALLOCATED \<and> block_size (hdrs s' fr) = bsz
          \<and> p_end_marker (hdrs s' fr) = fr + sizeof_header + psz
          \<and> is_end_marker_valid (p_end_marker (hdrs s' fr)) s'
          \<and> pos (default_buffer s') = pos (default_buffer s) + bsz))
   \<and> (\<not> bsz \<le> buf_size (default_buffer s) - pos (default_buffer s)
        \<and> scan_path s bsz (head s) xs 0 \<longrightarrow>
      find_free_space bsz psz file ln s = Some (0, s))
   \<and> (\<not> bsz \<le> buf_size (default_buffer s) - pos (default_buffer s)
        \<and> scan_path s bsz (head s) xs b \<and> b \<noteq> 0
        \<and> p_status (hdrs s b) = FREE \<and> block_size (hdrs s b) \<ge> bsz \<longrightarrow>
      (let s' = split_block b bsz (generate_alloc_block b (block_size (hdrs s b)) psz file ln s)
       in find_free_space bsz psz file ln s = Some (b + sizeof_header, s')
          \<and> head s' = head s \<and> default_buffer s' = default_buffer s
          \<and> is_end_marker_valid (b + sizeof_header + psz) s'
          \<and> (block_size (hdrs s b) - bsz < MIN_BLOCK_SIZE \<longrightarrow>
                hdrs s' = (hdrs s)(b := (hdrs s b)\<lparr>p_payload := b + sizeof_header,
                   p_file := file, line := ln, p_status := ALLOCATED,
                   p_end_marker := b + sizeof_header + psz\<rparr>))
          \<and> (\<not> block_size (hdrs s b) - bsz < MIN_BLOCK_SIZE \<and> bsz \<noteq> 0
               \<and> p_prev (hdrs s b) \<noteq> b + bsz \<longrightarrow>
                p_status (hdrs s' b) = ALLOCATED
                \<and> p_end_marker (hdrs s' b) = b + sizeof_header + psz
                \<and> block_size (hdrs s' b) = bsz
                \<and> p_status (hdrs s' (b + bsz)) = FREE
                \<and> block_size (hdrs s' (b + bsz)) = block_size (hdrs s b) - bsz
                \<and> p_next (hdrs s' (b + bsz)) = b
                \<and> p_prev (hdrs s' b) = b + bsz
                \<and> p_prev (hdrs s' (b + bsz)) = p_prev (hdrs s b)
                \<and> (p_prev (hdrs s b) \<noteq> 0 \<longrightarrow>
                      p_next (hdrs s' (p_prev (hdrs s b))) = b + bsz))))"
proof (intro conjI impI)
  assume "bsz \<le> buf_size (default_buffer s) - pos (default_buffer s)"
  then show "let fr = buffer (default_buffer s) + pos (default_buffer s);
           s' = carve bsz psz file ln s
       in find_free_space bsz psz file ln s = Some (fr + sizeof_header, s')
          \<and> head s' = fr \<and> p_next (hdrs s' fr) = head s
          \<and> p_status (hdrs s' fr) = ALLOCATED \<and> block_size (hdrs s' fr) = bsz
          \<and> p_end_marker (hdrs s' fr) = fr + sizeof_header + psz
          \<and> is_end_marker_valid (p_end_marker (hdrs s' fr)) s'
          \<and> pos (default_buffer s') = pos (default_buffer s) + bsz"
    by (simp add: Let_def find_free_space_frontier carve_fields carve_links
        is_end_marker_valid_def end_marker_written)
next
  assume "\<not> bsz \<le> buf_size (default_buffer s) - pos (default_buffer s)
        \<and> scan_path s bsz (head s) xs 0"
  then show "find_free_space bsz psz file ln s = Some (0, s)"
    by (simp add: find_free_space_def find_freed_block_def
        find_freed_block_from_path [of s bsz "head s" xs 0]
        find_freed_block_from.simps [of 0])
next
  assume a: "\<not> bsz \<le> buf_size (default_buffer s) - pos (default_buffer s)
        \<and> scan_path s bsz (head s) xs b \<and> b \<noteq> 0
        \<and> p_status (hdrs s b) = FREE \<and> block_size (hdrs s b) \<ge> bsz"
  define s1 where "s1 = generate_alloc_block b (block_size (hdrs s b)) psz file ln s"
  define s' where "s' = split_block b bsz s1"
  have r: "find_free_space bsz psz file ln s = Some (b + sizeof_header, s')"
    using a
    by (simp add: find_free_space_def find_freed_block_def s'_def s1_def
        find_freed_block_from_path [of s bsz "head s" xs b] find_freed_block_from_found)
  have h1: "hdrs s1 = (hdrs s)(b := (hdrs s b)\<lparr>p_payload := b + sizeof_header,
                   p_file := file, line := ln, p_status := ALLOCATED,
                   p_end_marker := b + sizeof_header + psz\<rparr>)"
    by (simp add: s1_def generate_alloc_block_hdrs)
  have bs1: "block_size (hdrs s1 b) = block_size (hdrs s b)"
    "p_prev (hdrs s1 b) = p_prev (hdrs s b)"
    "p_status (hdrs s1 b) = ALLOCATED" "p_end_marker (hdrs s1 b) = b + sizeof_header + psz"
    by (simp_all add: h1)
  have fr: "head s' = head s" "default_buffer s' = default_buffer s"
    by (simp_all add: s'_def s1_def split_block_frame generate_alloc_block_frame)
  have em: "is_end_marker_valid (b + sizeof_header + psz) s'"
    by (simp add: s'_def s1_def is_end_marker_valid_def split_block_frame
        generate_alloc_block_bytes end_marker_written)
  have nosplit: "hdrs s' = (hdrs s)(b := (hdrs s b)\<lparr>p_payload := b + sizeof_header,
                   p_file := file, line := ln, p_status := ALLOCATED,
                   p_end_marker := b + sizeof_header + psz\<rparr>)"
    if "block_size (hdrs s b) - bsz < MIN_BLOCK_SIZE"
    using that by (simp add: s'_def split_block_none bs1 h1)
  have split: "p_status (hdrs s' b) = ALLOCATED
                \<and> p_end_marker (hdrs s' b) = b + sizeof_header + psz
                \<and> block_size (hdrs s' b) = bsz
                \<and> p_status (hdrs s' (b + bsz)) = FREE
                \<and> block_size (hdrs s' (b + bsz)) = block_size (hdrs s b) - bsz
                \<and> p_next (hdrs s' (b + bsz)) = b
                \<and> p_prev (hdrs s' b) = b + bsz
                \<and> p_prev (hdrs s' (b + bsz)) = p_prev (hdrs s b)
                \<and> (p_prev (hdrs s b) \<noteq> 0 \<longrightarrow>
                      p_next (hdrs s' (p_prev (hdrs s b))) = b + bsz)"
    if "\<not> block_size (hdrs s b) - bsz < MIN_BLOCK_SIZE \<and> bsz \<noteq> 0
               \<and> p_prev (hdrs s b) \<noteq> b + bsz"
  proof -
    from that have c: "\<not> block_size (hdrs s1 b) - bsz < MIN_BLOCK_SIZE" "bsz \<noteq> 0"
      "p_prev (hdrs s1 b) \<noteq> b + bsz"
      by (simp_all add: bs1)
    show ?thesis
      unfolding s'_def using split_block_hdrs [OF c] by (simp add: bs1)
  qed
  from r fr em nosplit split
  show "let s' = split_block b bsz (generate_alloc_block b (block_size (hdrs s b)) psz file ln s)
       in find_free_space bsz psz file ln s = Some (b + sizeof_header, s')
          \<and> head s' = head s \<and> default_buffer s' = default_buffer s
          \<and> is_end_marker_valid (b + sizeof_header + psz) s'
          \<and> (block_size (hdrs s b) - bsz < MIN_BLOCK_SIZE \<longrightarrow>
                hdrs s' = (hdrs s)(b := (hdrs s b)\<lparr>p_payload := b + sizeof_header,
                   p_file := file, line := ln, p_status := ALLOCATED,
                   p_end_marker := b + sizeof_header + psz\<rparr>))
          \<and> (\<not> block_size (hdrs s b) - bsz < MIN_BLOCK_SIZE \<and> bsz \<noteq> 0
               \<and> p_prev (hdrs s b) \<noteq> b + bsz \<longrightarrow>
                p_status (hdrs s' b) = ALLOCATED
                \<and> p_end_marker (hdrs s' b) = b + sizeof_header + psz
                \<and> block_size (hdrs s' b) = bsz
                \<and> p_status (hdrs s' (b + bsz)) = FREE
                \<and> block_size (hdrs s' (b + bsz)) = block_size (hdrs s b) - bsz
                \<and> p_next (hdrs s' (b + bsz)) = b
                \<and> p_prev (hdrs s' b) = b + bsz
                \<and> p_prev (hdrs s' (b + bsz)) = p_prev (hdrs s b)
                \<and> (p_prev (hdrs s b) \<noteq> 0 \<longrightarrow>
                      p_next (hdrs s' (p_prev (hdrs s b))) = b + bsz))"
    unfolding s'_def s1_def Let_def by blast
qed

theorem frontier_then_first_fit_witness:
  "find_free_space 96 10 ''test.cc'' 1 (init_state 0x10000)
     = Some (0x10040, carve 96 10 ''test.cc'' 1 (init_state 0x10000))
   \<and> head (carve 96 10 ''test.cc'' 1 (init_state 0x10000)) = 0x10000
   \<and> find_free_space 8388688 8388608 ''test.cc'' 1 (init_state 0x10000)
     = Some (0, init_state 0x10000)
   \<and> (case run [Malloc 4000000 ''test.cc'' 1, Malloc 4000000 ''test.cc'' 2,
                 Free 0x10040 ''test.cc'' 3] (init_state 0x10000, no_history) of
        None \<Rightarrow> False
      | Some (s, h) \<Rightarrow>
          (\<exists>s'. find_free_space 1000080 1000000 ''test.cc'' 4 s = Some (0x10040, s')
             \<and> p_status (hdrs s' 65536) = ALLOCATED \<and> block_size (hdrs s' 65536) = 1000080
             \<and> p_status (hdrs s' 1065616) = FREE \<and> block_size (hdrs s' 1065616) = 3000000
             \<and> p_next (hdrs s' 1065616) = 65536 \<and> p_prev (hdrs s' 65536) = 1065616
             \<and> p_prev (hdrs s' 1065616) = 4065616 \<and> p_next (hdrs s' 4065616) = 1065616)
          \<and> (\<exists>s'. find_free_space 4000080 4000000 ''test.cc'' 4 s = Some (0x10040, s')
             \<and> p_status (hdrs s' 65536) = ALLOCATED \<and> block_size (hdrs s' 65536) = 4000080))"
proof -
  let ?s0 = "init_state 0x10000"
  let ?r = "run [Malloc 4000000 ''test.cc'' 1, Malloc 4000000 ''test.cc'' 2,
                 Free 0x10040 ''test.cc'' 3] (?s0, no_history)"
  have a1: "(96 :: size_t) \<le> buf_size (default_buffer ?s0) - pos (default_buffer ?s0)"
    by (simp add: init_state_def)
  have a2: "\<not> (8388688 :: size_t) \<le> buf_size (default_buffer ?s0) - pos (default_buffer ?s0)
      \<and> scan_path ?s0 8388688 (head ?s0) [] 0"
    by (simp add: init_state_def)
  have "case ?r of None \<Rightarrow> False
    | Some (s, h) \<Rightarrow>
        (\<not> (1000080 :: size_t) \<le> buf_size (default_buffer s) - pos (default_buffer s)
         \<and> scan_path s 1000080 (head s) [4065616] 65536 \<and> (65536 :: addr) \<noteq> 0
         \<and> p_status (hdrs s 65536) = FREE \<and> block_size (hdrs s 65536) \<ge> 1000080)
        \<and> (\<not> (4000080 :: size_t) \<le> buf_size (default_buffer s) - pos (default_buffer s)
         \<and> scan_path s 4000080 (head s) [4065616] 65536 \<and> (65536 :: addr) \<noteq> 0
         \<and> p_status (hdrs s 65536) = FREE \<and> block_size (hdrs s 65536) \<ge> 4000080)
        \<and> block_size (hdrs s 65536) = 4000080 \<and> p_prev (hdrs s 65536) = 4065616"
    by code_simp
  then obtain s h where r: "?r = Some (s, h)"
    and a3: "\<not> (1000080 :: size_t) \<le> buf_size (default_buffer s) - pos (default_buffer s)
         \<and> scan_path s 1000080 (head s) [4065616] 65536 \<and> (65536 :: addr) \<noteq> 0
         \<and> p_status (hdrs s 65536) = FREE \<and> block_size (hdrs s 65536) \<ge> 1000080"
    and a4: "\<not> (4000080 :: size_t) \<le> buf_size (default_buffer s) - pos (default_buffer s)
         \<and> scan_path s 4000080 (head s) [4065616] 65536 \<and> (65536 :: addr) \<noteq> 0
         \<and> p_status (hdrs s 65536) = FREE \<and> block_size (hdrs s 65536) \<ge> 4000080"
    and f: "block_size (hdrs s 65536) = 4000080" "p_prev (hdrs s 65536) = 4065616"
    by (auto split: option.splits)
  have c1: "find_free_space 96 10 ''test.cc'' 1 ?s0
       = Some (0x10040, carve 96 10 ''test.cc'' 1 ?s0)
     \<and> head (carve 96 10 ''test.cc'' 1 ?s0) = 0x10000"
    using frontier_then_first_fit [of 96 ?s0 10 "''test.cc''" 1 "[]" 0] a1
    by (simp add: Let_def) (simp add: init_state_def sizeof_header_def)
  have c2: "find_free_space 8388688 8388608 ''test.cc'' 1 ?s0 = Some (0, ?s0)"
    using frontier_then_first_fit [of 8388688 ?s0 8388608 "''test.cc''" 1 "[]" 0] a2
    by blast
  have c3: "\<exists>s'. find_free_space 1000080 1000000 ''test.cc'' 4 s = Some (0x10040, s')
             \<and> p_status (hdrs s' 65536) = ALLOCATED \<and> block_size (hdrs s' 65536) = 1000080
             \<and> p_status (hdrs s' 1065616) = FREE \<and> block_size (hdrs s' 1065616) = 3000000
             \<and> p_next (hdrs s' 1065616) = 65536 \<and> p_prev (hdrs s' 65536) = 1065616
             \<and> p_prev (hdrs s' 1065616) = 4065616 \<and> p_next (hdrs s' 4065616) = 1065616"
    using frontier_then_first_fit [of 1000080 s 1000000 "''test.cc''" 4 "[4065616]" 65536] a3
    by (simp add: Let_def f consts_defs)
  have c4: "\<exists>s'. find_free_space 4000080 4000000 ''test.cc'' 4 s = Some (0x10040, s')
             \<and> p_status (hdrs s' 65536) = ALLOCATED \<and> block_size (hdrs s' 65536) = 4000080"
    using frontier_then_first_fit [of 4000080 s 4000000 "''test.cc''" 4 "[4065616]" 65536] a4
    by (simp add: Let_def f consts_defs)
  from c1 c2 c3 c4 r show ?thesis by simp
qed

text \<open>
  Claim C1 fails on the code. A block of 10 bytes is allocated and resized to 12 bytes.
  The length handed to \<^verbatim>\<open>memcpy\<close> is computed from the header of the new block, whose
  payload size is the new size, so 12 bytes are copied and not \<open>min 12 10 = 10\<close>: bytes
  10 and 11 of the returned region, which were zero after the allocation of the new block,
  hold the first two bytes of the old block's end marker, read from behind its payload.
\<close>

theorem realloc_copies_new_size_bytes:
  "(case run [Malloc 10 ''test.cc'' 1] (init_state 0x10000, no_history) of
      None \<Rightarrow> False
    | Some (s, h) \<Rightarrow>
        live h 0x10040 = Some 10
        \<and> get_payload_size (0x10040 - sizeof_header) s = 10
        \<and> (case m61_malloc 12 ''test.cc'' 2 s of
              None \<Rightarrow> False
            | Some (new_ptr, s1) \<Rightarrow>
                new_ptr = 0x100A0
                \<and> realloc_copy_length new_ptr 12 s1 = 12
                \<and> bytes s1 (new_ptr + 10) = 0 \<and> bytes s1 (new_ptr + 11) = 0
                \<and> bytes s1 (0x10040 + 10) = 0x44 \<and> bytes s1 (0x10040 + 11) = 0x45)
        \<and> (case m61_realloc 0x10040 12 ''test.cc'' 2 s of
              Some (Returns (new_ptr, s')) \<Rightarrow>
                new_ptr = 0x100A0
                \<and> bytes s' (new_ptr + 10) = 0x44 \<and> bytes s' (new_ptr + 11) = 0x45
            | _ \<Rightarrow> False))"
  by code_simp

lemma aligned_dvd: "aligned x \<longleftrightarrow> 16 dvd uint x"
proof -
  have "x mod 16 = 0 \<longleftrightarrow> uint (x mod 16) = 0"
    by (simp add: uint_0_iff)
  also have "\<dots> \<longleftrightarrow> uint x mod 16 = 0"
    by (simp add: uint_mod)
  finally show ?thesis
    by (simp add: aligned_def ALIGNMENT_def dvd_eq_mod_eq_0)
qed

lemma dvd16_mod: "(16 :: int) dvd a mod 18446744073709551616 \<longleftrightarrow> 16 dvd a"
proof -
  have "(16 :: int) dvd 18446744073709551616" by simp
  then show ?thesis by (rule dvd_mod_iff)
qed

lemma aligned_0 [simp]: "aligned 0"
  by (simp add: aligned_dvd)

lemma aligned_add: "aligned x \<Longrightarrow> aligned y \<Longrightarrow> aligned (x + y)"
  by (simp add: aligned_dvd uint_word_ariths dvd16_mod)

lemma aligned_diff: "aligned x \<Longrightarrow> aligned y \<Longrightarrow> aligned (x - y)"
  by (simp add: aligned_dvd uint_word_ariths dvd16_mod)

lemma aligned_sizeof_header: "aligned sizeof_header"
  by (simp add: aligned_dvd sizeof_header_def)

lemma aligned_ALIGNMENT: "aligned ALIGNMENT"
  by (simp add: aligned_dvd ALIGNMENT_def)

lemma aligned_round_up: "aligned (a + (ALIGNMENT - a mod ALIGNMENT))"
proof -
  have "uint (a + (16 - a mod 16))
      = (uint a + (16 - uint a mod 16) mod 18446744073709551616) mod 18446744073709551616"
    by (simp add: uint_word_ariths uint_mod)
  then have "16 dvd uint (a + (16 - a mod 16)) \<longleftrightarrow> 16 dvd (uint a + (16 - uint a mod 16))"
    by (simp add: dvd16_mod mod_add_right_eq)
  also have "\<dots>"
    by presburger
  finally show ?thesis
    by (simp add: aligned_dvd ALIGNMENT_def)
qed

lemma aligned_block_size: "aligned (sizeof_header + sz + malloc_padding sz)"
proof -
  note a = aligned_round_up [of "sizeof_header + sz"]
  show ?thesis
    using a aligned_add [OF a aligned_ALIGNMENT]
    by (simp add: malloc_padding_def Let_def add.assoc)
qed

lemma aligned_state_init: "aligned buf \<Longrightarrow> aligned_state (init_state buf)"
  by (simp add: aligned_state_def init_state_def zero_header_def aligned_0)

lemma aligned_state_gstats: "aligned_state (s\<lparr>gstats := g\<rparr>) = aligned_state s"
  by (simp add: aligned_state_def)

lemma aligned_state_bytes: "aligned_state (s\<lparr>bytes := g\<rparr>) = aligned_state s"
  by (simp add: aligned_state_def)

lemma aligned_add_block:
  "aligned_state s \<Longrightarrow> aligned p \<Longrightarrow> aligned_state (add_block p s)"
  by (simp add: aligned_state_def add_block_def Let_def aligned_0)

lemma aligned_remove_block:
  "aligned_state s \<Longrightarrow> remove_block p s = Returns s' \<Longrightarrow> aligned_state s'"
  by (auto simp: aligned_state_def remove_block_def Let_def aligned_0 split: if_splits)

lemma aligned_insert_before_block:
  "aligned_state s \<Longrightarrow> aligned p \<Longrightarrow> aligned q \<Longrightarrow> aligned_state (insert_before_block p q s)"
  by (simp add: aligned_state_def insert_before_block_def Let_def)

lemma aligned_generate_alloc_block:
  "aligned_state s \<Longrightarrow> aligned b \<Longrightarrow> aligned_state (generate_alloc_block p b ps f l s)"
  by (simp add: aligned_state_def generate_alloc_block_def generate_generic_block_def
      add_end_marker_def Let_def)

lemma aligned_generate_free_block:
  "aligned_state s \<Longrightarrow> aligned b \<Longrightarrow> aligned_state (generate_free_block p b f l s)"
  by (simp add: aligned_state_def generate_free_block_def generate_generic_block_def Let_def)

lemma aligned_state_block_size: "aligned_state s \<Longrightarrow> aligned (block_size (hdrs s p))"
  and aligned_state_p_next: "aligned_state s \<Longrightarrow> aligned (p_next (hdrs s p))"
  and aligned_state_p_prev: "aligned_state s \<Longrightarrow> aligned (p_prev (hdrs s p))"
  and aligned_state_head: "aligned_state s \<Longrightarrow> aligned (head s)"
  by (simp_all add: aligned_state_def)

lemma aligned_set_block_size:
  "aligned_state s \<Longrightarrow> aligned b
     \<Longrightarrow> aligned_state (s\<lparr>hdrs := (hdrs s)(p := (hdrs s p)\<lparr>block_size := b\<rparr>)\<rparr>)"
  by (simp add: aligned_state_def)

lemma aligned_split_block:
  assumes "aligned_state s" and "aligned p" and "aligned r"
  shows "aligned_state (split_block p r s)"
proof (cases "block_size (hdrs s p) - r < MIN_BLOCK_SIZE")
  case True
  with assms show ?thesis by (simp add: split_block_none)
next
  case False
  have n: "aligned (p + r)"
    using assms by (simp add: aligned_add)
  have d: "aligned (block_size (hdrs s p) - r)"
    using assms by (simp add: aligned_diff aligned_state_block_size)
  have "aligned_state (insert_before_block (p + r) p
      (generate_free_block (p + r) (block_size (hdrs s p) - r) (p_file (hdrs s p))
         (line (hdrs s p)) s))"
    using assms n d by (simp add: aligned_insert_before_block aligned_generate_free_block)
  then show ?thesis
    using False assms(3) by (simp add: split_block_def Let_def aligned_set_block_size)
qed

lemma aligned_find_freed_block_from:
  assumes "find_freed_block_from p r ps f l s = Some y"
  shows "aligned_state s \<longrightarrow> aligned p \<longrightarrow> aligned r
     \<longrightarrow> aligned_state (snd y) \<and> aligned (fst y)"
proof (rule find_freed_block_from.raw_induct
        [where P = "\<lambda>p r ps f l s y. aligned_state s \<longrightarrow> aligned p \<longrightarrow> aligned r
           \<longrightarrow> aligned_state (snd y) \<and> aligned (fst y)", OF _ assms], goal_cases)
  case (1 ff p r ps f l s y)
  show ?case
  proof (intro impI)
    assume a: "aligned_state s" "aligned p" "aligned r"
    show "aligned_state (snd y) \<and> aligned (fst y)"
    proof (cases "p = 0")
      case True
      with 1(2) a show ?thesis by (auto simp: aligned_0)
    next
      case False
      show ?thesis
      proof (cases "p_status (hdrs s p) = FREE \<and> r \<le> block_size (hdrs s p)")
        case True
        with False 1(2) have y: "y = (p + sizeof_header,
            split_block p r (generate_alloc_block p (block_size (hdrs s p)) ps f l s))"
          by (auto simp: Let_def found_payload)
        from a show ?thesis
          by (simp add: y aligned_split_block aligned_generate_alloc_block
              aligned_state_block_size aligned_add aligned_sizeof_header)
      next
        case nofit: False
        with False 1(2) have "ff (p_next (hdrs s p)) r ps f l s = Some y"
          by auto
        from 1(1)[OF this] a show ?thesis
          by (simp add: aligned_state_p_next)
      qed
    qed
  qed
qed

lemma aligned_carve:
  assumes "aligned_state s" and "aligned bsz"
  shows "aligned_state (carve bsz psz f l s)"
proof -
  have fr: "aligned (buffer (default_buffer s) + pos (default_buffer s))"
    using assms(1) by (simp add: aligned_state_def aligned_add)
  have "aligned_state (add_block (buffer (default_buffer s) + pos (default_buffer s))
     (generate_alloc_block (buffer (default_buffer s) + pos (default_buffer s)) bsz psz f l s))"
    using assms fr by (simp add: aligned_add_block aligned_generate_alloc_block)
  then show ?thesis
    using assms by (simp add: carve_def aligned_state_def aligned_add
        generate_alloc_block_frame add_block_def Let_def)
qed

text \<open>The two steps of a call of \<^verbatim>\<open>coalesce\<close> that returns.\<close>

lemma coalesce_returns:
  assumes "coalesce p s = Returns s'"
  obtains s1 where
    "s1 = s \<and> \<not> is_block_free (p_prev (hdrs s p)) s
     \<or> is_block_free (p_prev (hdrs s p)) s
       \<and> remove_block (p_prev (hdrs s p))
            (s\<lparr>hdrs := (hdrs s)(p := (hdrs s p)\<lparr>block_size :=
               block_size (hdrs s p) + block_size (hdrs s (p_prev (hdrs s p)))\<rparr>)\<rparr>) = Returns s1"
    and
    "s' = s1 \<and> \<not> is_block_free (p_next (hdrs s1 p)) s1
     \<or> is_block_free (p_next (hdrs s1 p)) s1
       \<and> remove_block p
            (s1\<lparr>hdrs := (hdrs s1)(p_next (hdrs s1 p) := (hdrs s1 (p_next (hdrs s1 p)))
               \<lparr>block_size := block_size (hdrs s1 (p_next (hdrs s1 p)))
                  + block_size (hdrs s1 p)\<rparr>)\<rparr>) = Returns s'"
proof -
  from assms obtain up s1 down where
    up: "can_coalesce_up p s = Returns up"
    and s1: "(if up then remove_block (p_prev (hdrs s p))
                (s\<lparr>hdrs := (hdrs s)(p := (hdrs s p)\<lparr>block_size :=
                   block_size (hdrs s p) + block_size (hdrs s (p_prev (hdrs s p)))\<rparr>)\<rparr>)
              else Returns s) = Returns s1"
    and down: "can_coalesce_down p s1 = Returns down"
    and s': "(if down then remove_block p
                (s1\<lparr>hdrs := (hdrs s1)(p_next (hdrs s1 p) := (hdrs s1 (p_next (hdrs s1 p)))
                   \<lparr>block_size := block_size (hdrs s1 (p_next (hdrs s1 p)))
                      + block_size (hdrs s1 p)\<rparr>)\<rparr>)
              else Returns s1) = Returns s'"
    by (auto simp: coalesce_def split: outcome.splits)
  from up have u: "up = is_block_free (p_prev (hdrs s p)) s"
    by (auto simp: can_coalesce_up_def split: if_splits)
  from down have d: "down = is_block_free (p_next (hdrs s1 p)) s1"
    by (auto simp: can_coalesce_down_def split: if_splits)
  show ?thesis
  proof (rule that [of s1])
    show "s1 = s \<and> \<not> is_block_free (p_prev (hdrs s p)) s
     \<or> is_block_free (p_prev (hdrs s p)) s
       \<and> remove_block (p_prev (hdrs s p))
            (s\<lparr>hdrs := (hdrs s)(p := (hdrs s p)\<lparr>block_size :=
               block_size (hdrs s p) + block_size (hdrs s (p_prev (hdrs s p)))\<rparr>)\<rparr>) = Returns s1"
      using s1 u by (cases up) auto
    show "s' = s1 \<and> \<not> is_block_free (p_next (hdrs s1 p)) s1
     \<or> is_block_free (p_next (hdrs s1 p)) s1
       \<and> remove_block p
            (s1\<lparr>hdrs := (hdrs s1)(p_next (hdrs s1 p) := (hdrs s1 (p_next (hdrs s1 p)))
               \<lparr>block_size := block_size (hdrs s1 (p_next (hdrs s1 p)))
                  + block_size (hdrs s1 p)\<rparr>)\<rparr>) = Returns s'"
      using s' d by (cases down) auto
  qed
qed

lemma aligned_coalesce:
  assumes "aligned_state s" and "coalesce p s = Returns s'"
  shows "aligned_state s'"
proof -
  from coalesce_returns [OF assms(2)] obtain s1 where
    a: "s1 = s \<and> \<not> is_block_free (p_prev (hdrs s p)) s
     \<or> is_block_free (p_prev (hdrs s p)) s
       \<and> remove_block (p_prev (hdrs s p))
            (s\<lparr>hdrs := (hdrs s)(p := (hdrs s p)\<lparr>block_size :=
               block_size (hdrs s p) + block_size (hdrs s (p_prev (hdrs s p)))\<rparr>)\<rparr>) = Returns s1"
    and b: "s' = s1 \<and> \<not> is_block_free (p_next (hdrs s1 p)) s1
     \<or> is_block_free (p_next (hdrs s1 p)) s1
       \<and> remove_block p
            (s1\<lparr>hdrs := (hdrs s1)(p_next (hdrs s1 p) := (hdrs s1 (p_next (hdrs s1 p)))
               \<lparr>block_size := block_size (hdrs s1 (p_next (hdrs s1 p)))
                  + block_size (hdrs s1 p)\<rparr>)\<rparr>) = Returns s'"
    by blast
  have s1: "aligned_state s1"
    using a
  proof (elim disjE conjE)
    assume "s1 = s"
    with assms(1) show ?thesis by simp
  next
    assume r: "remove_block (p_prev (hdrs s p))
            (s\<lparr>hdrs := (hdrs s)(p := (hdrs s p)\<lparr>block_size :=
               block_size (hdrs s p) + block_size (hdrs s (p_prev (hdrs s p)))\<rparr>)\<rparr>) = Returns s1"
    have "aligned (block_size (hdrs s p) + block_size (hdrs s (p_prev (hdrs s p))))"
      using assms(1) by (simp add: aligned_add aligned_state_block_size)
    from aligned_remove_block [OF aligned_set_block_size [OF assms(1) this] r]
    show ?thesis .
  qed
  show ?thesis
    using b
  proof (elim disjE conjE)
    assume "s' = s1"
    with s1 show ?thesis by simp
  next
    assume r: "remove_block p
            (s1\<lparr>hdrs := (hdrs s1)(p_next (hdrs s1 p) := (hdrs s1 (p_next (hdrs s1 p)))
               \<lparr>block_size := block_size (hdrs s1 (p_next (hdrs s1 p)))
                  + block_size (hdrs s1 p)\<rparr>)\<rparr>) = Returns s'"
    have "aligned (block_size (hdrs s1 (p_next (hdrs s1 p))) + block_size (hdrs s1 p))"
      using s1 by (simp add: aligned_add aligned_state_block_size)
    from aligned_remove_block [OF aligned_set_block_size [OF s1 this] r]
    show ?thesis .
  qed
qed

lemma aligned_move_buffer_pos:
  assumes "aligned_state s" and "move_buffer_pos s = Returns s'"
  shows "aligned_state s'"
proof (cases "head s = 0 \<or> p_status (hdrs s (head s)) = ALLOCATED")
  case True
  with assms show ?thesis by (simp add: move_buffer_pos_def)
next
  case False
  have "aligned_state (s\<lparr>default_buffer := (default_buffer s)\<lparr>pos :=
               pos (default_buffer s) - block_size (hdrs s (head s))\<rparr>\<rparr>)"
    using assms(1) by (simp add: aligned_state_def aligned_diff)
  with False assms(2) show ?thesis
    by (auto simp: move_buffer_pos_def intro: aligned_remove_block)
qed

lemma aligned_m61_free:
  assumes "aligned_state s" and "m61_free ptr f l s = Some (Returns s')"
  shows "aligned_state s'"
proof (cases "ptr = 0")
  case True
  with assms show ?thesis by (simp add: m61_free_def)
next
  case False
  from m61_free_returns [OF assms(2) False] obtain s2 s3 where
    s2: "s2 = generate_free_block (ptr - sizeof_header)
            (block_size (hdrs s (ptr - sizeof_header))) f l
            (remove_from_statistics (get_payload_size (ptr - sizeof_header) s) s)"
    and c: "coalesce (ptr - sizeof_header) s2 = Returns s3"
    and m: "move_buffer_pos s3 = Returns s'"
    by blast
  have "aligned_state (remove_from_statistics (get_payload_size (ptr - sizeof_header) s) s)"
    using assms(1) by (simp add: remove_from_statistics_def Let_def aligned_state_gstats)
  then have "aligned_state s2"
    using assms(1) by (simp add: s2 aligned_generate_free_block aligned_state_block_size)
  then have "aligned_state s3"
    using c by (rule aligned_coalesce)
  then show ?thesis
    using m by (rule aligned_move_buffer_pos)
qed

lemma aligned_m61_malloc:
  assumes "aligned_state s" and "m61_malloc sz f l s = Some (p, s')"
  shows "aligned_state s' \<and> aligned p"
proof (cases "sz > SIZE_MAX - malloc_padding sz - sizeof_header")
  case True
  with assms show ?thesis
    by (auto simp: m61_malloc_def Let_def update_statistics_for_failure_def aligned_state_gstats)
next
  case False
  let ?bsz = "sizeof_header + sz + malloc_padding sz"
  from False assms(2) obtain q s1 where
    fs: "find_free_space ?bsz sz f l s = Some (q, s1)"
    by (auto simp: m61_malloc_def Let_def split: option.splits)
  have 1: "aligned_state s1 \<and> aligned q"
  proof (cases "?bsz \<le> buf_size (default_buffer s) - pos (default_buffer s)")
    case True
    have "aligned (buffer (default_buffer s) + pos (default_buffer s) + sizeof_header)"
      using assms(1) by (simp add: aligned_state_def aligned_add aligned_sizeof_header)
    moreover have "aligned_state (carve ?bsz sz f l s)"
      using assms(1) by (simp add: aligned_carve aligned_block_size)
    ultimately show ?thesis
      using find_free_space_frontier [OF True, of sz f l] fs by simp
  next
    case False
    with fs have "find_freed_block_from (head s) ?bsz sz f l s = Some (q, s1)"
      by (simp add: find_free_space_def find_freed_block_def)
    from aligned_find_freed_block_from [OF this] assms(1) show ?thesis
      by (simp add: aligned_state_head aligned_block_size)
  qed
  from False assms(2) fs have "p = q"
    and "s' = update_statistics_for_failure sz s1 \<or> s' = add_to_statistics sz q s1"
    by (auto simp: m61_malloc_def Let_def split: if_splits)
  with 1 show ?thesis
    by (auto simp: update_statistics_for_failure_def add_to_statistics_def Let_def
        aligned_state_gstats)
qed

lemma aligned_m61_calloc:
  assumes "aligned_state s" and "m61_calloc n sz f l s = Some (p, s')"
  shows "aligned_state s' \<and> aligned p"
proof (cases "is_overflowing n sz")
  case True
  with assms show ?thesis
    by (auto simp: m61_calloc_def Let_def aligned_state_gstats)
next
  case False
  with assms(2) obtain s1 where m: "m61_malloc (n * sz) f l s = Some (p, s1)"
    and s': "s' = s1 \<or> s' = s1\<lparr>bytes := memset p 0 (n * sz) (bytes s1)\<rparr>"
    by (auto simp: m61_calloc_def split: option.splits if_splits)
  from aligned_m61_malloc [OF assms(1) m] s' show ?thesis
    by (auto simp: aligned_state_bytes)
qed

lemma aligned_m61_realloc:
  assumes "aligned_state s" and "m61_realloc ptr sz f l s = Some (Returns (p, s'))"
  shows "aligned_state s' \<and> aligned p"
proof (cases "sz = 0")
  case True
  with assms show ?thesis by (simp add: m61_realloc_def)
next
  case False
  with assms(2) obtain q s1 where m: "m61_malloc sz f l s = Some (q, s1)"
    by (auto simp: m61_realloc_def split: option.splits)
  note a = aligned_m61_malloc [OF assms(1) m]
  show ?thesis
  proof (cases "ptr = 0 \<or> q = 0")
    case True
    with False assms(2) m a show ?thesis by (auto simp: m61_realloc_def)
  next
    case nz: False
    let ?s2 = "s1\<lparr>bytes := memcpy q ptr (realloc_copy_length q sz s1) (bytes s1)\<rparr>"
    from False nz assms(2) m have "m61_free ptr f l ?s2 = Some (Returns s')" and "p = q"
      by (auto simp: m61_realloc_def Let_def split: option.splits outcome.splits)
    moreover have "aligned_state ?s2"
      using a by (simp add: aligned_state_bytes)
    ultimately show ?thesis
      using a aligned_m61_free by blast
  qed
qed

lemma aligned_minus_header: "aligned p \<Longrightarrow> aligned (p - sizeof_header)"
  by (simp add: aligned_diff aligned_sizeof_header)

text \<open>
  Claim C10: the block size computed for a request is a multiple of the alignment, and the
  alignment invariant holds initially (for an aligned arena base, as \<^verbatim>\<open>mmap\<close> gives)
  and is kept by all four operations. Under it every header, whether carved at the
  frontier, produced by a split or merged by coalescing, has a block size that is a
  multiple of the alignment, and every pointer an allocating operation returns is aligned
  together with its header address \<open>p - sizeof_header\<close>, so the misalignment test of
  \<^verbatim>\<open>is_header_valid\<close> does not fire for it.
\<close>

theorem blocks_and_pointers_aligned:
  "(buf mod ALIGNMENT = 0 \<longrightarrow> aligned_state (init_state buf))
   \<and> (sizeof_header + sz + malloc_padding sz) mod ALIGNMENT = 0
   \<and> (aligned_state s \<longrightarrow>
        (\<forall>q. block_size (hdrs s q) mod ALIGNMENT = 0)
        \<and> (m61_malloc sz file ln s = Some (p, s') \<longrightarrow>
             aligned_state s' \<and> p mod ALIGNMENT = 0 \<and> (p - sizeof_header) mod ALIGNMENT = 0)
        \<and> (m61_calloc count sz file ln s = Some (p, s') \<longrightarrow>
             aligned_state s' \<and> p mod ALIGNMENT = 0 \<and> (p - sizeof_header) mod ALIGNMENT = 0)
        \<and> (m61_realloc ptr sz file ln s = Some (Returns (p, s')) \<longrightarrow>
             aligned_state s' \<and> p mod ALIGNMENT = 0 \<and> (p - sizeof_header) mod ALIGNMENT = 0)
        \<and> (m61_free ptr file ln s = Some (Returns s') \<longrightarrow> aligned_state s'))"
proof (intro conjI impI allI)
  assume "buf mod ALIGNMENT = 0"
  then show "aligned_state (init_state buf)"
    by (simp add: aligned_state_init aligned_def)
next
  show "(sizeof_header + sz + malloc_padding sz) mod ALIGNMENT = 0"
    using aligned_block_size [of sz] by (simp add: aligned_def)
next
  fix q assume "aligned_state s"
  then show "block_size (hdrs s q) mod ALIGNMENT = 0"
    using aligned_state_block_size [of s q] by (simp add: aligned_def)
next
  assume a: "aligned_state s" "m61_malloc sz file ln s = Some (p, s')"
  note r = aligned_m61_malloc [OF a]
  from r show "aligned_state s'" by simp
  from r show "p mod ALIGNMENT = 0" by (simp add: aligned_def)
  from r aligned_minus_header [of p] show "(p - sizeof_header) mod ALIGNMENT = 0"
    by (simp add: aligned_def)
next
  assume a: "aligned_state s" "m61_calloc count sz file ln s = Some (p, s')"
  note r = aligned_m61_calloc [OF a]
  from r show "aligned_state s'" by simp
  from r show "p mod ALIGNMENT = 0" by (simp add: aligned_def)
  from r aligned_minus_header [of p] show "(p - sizeof_header) mod ALIGNMENT = 0"
    by (simp add: aligned_def)
next
  assume a: "aligned_state s" "m61_realloc ptr sz file ln s = Some (Returns (p, s'))"
  note r = aligned_m61_realloc [OF a]
  from r show "aligned_state s'" by simp
  from r show "p mod ALIGNMENT = 0" by (simp add: aligned_def)
  from r aligned_minus_header [of p] show "(p - sizeof_header) mod ALIGNMENT = 0"
    by (simp add: aligned_def)
next
  assume "aligned_state s" "m61_free ptr file ln s = Some (Returns s')"
  then show "aligned_state s'" by (rule aligned_m61_free)
qed

theorem blocks_and_pointers_aligned_witness:
  "(0x10000 :: addr) mod ALIGNMENT = 0
   \<and> aligned_state (init_state 0x10000)
   \<and> (\<exists>s'. m61_malloc 10 ''test.cc'' 1 (init_state 0x10000) = Some (0x10040, s')
         \<and> aligned_state s' \<and> block_size (hdrs s' 0x10000) = 96
         \<and> (0x10040 :: addr) mod ALIGNMENT = 0 \<and> (0x10040 - sizeof_header) mod ALIGNMENT = 0
         \<and> is_header_valid (0x10040 - sizeof_header) 0x10040 s')"
proof -
  have b: "(0x10000 :: addr) mod ALIGNMENT = 0"
    by (simp add: ALIGNMENT_def)
  have "case m61_malloc 10 ''test.cc'' 1 (init_state 0x10000) of None \<Rightarrow> False
     | Some (p, s') \<Rightarrow> p = 0x10040 \<and> block_size (hdrs s' 0x10000) = 96
         \<and> is_header_valid (0x10040 - sizeof_header) 0x10040 s'"
    by code_simp
  then obtain s' where m: "m61_malloc 10 ''test.cc'' 1 (init_state 0x10000) = Some (0x10040, s')"
    and f: "block_size (hdrs s' 0x10000) = 96"
      "is_header_valid (0x10040 - sizeof_header) 0x10040 s'"
    by (auto split: option.splits)
  note t = blocks_and_pointers_aligned
         [of "0x10000" 10 "init_state 0x10000" "''test.cc''" 1 "0x10040" s' 0 0]
  from t b have i: "aligned_state (init_state 0x10000)"
    by simp
  from t i m have r: "aligned_state s'" "(0x10040 :: addr) mod ALIGNMENT = 0"
     "(0x10040 - sizeof_header) mod ALIGNMENT = 0"
    by simp_all
  from b i m f r show ?thesis
    by simp
qed

lemma hd_or_append: "hd_or (xs @ ys) d = hd_or xs (hd_or ys d)"
  by (cases xs) simp_all

lemma last_or_append: "last_or (xs @ ys) d = last_or ys (last_or xs d)"
  by (induction xs arbitrary: d) simp_all

lemma last_or_snoc [simp]: "last_or (xs @ [x]) d = x"
  by (simp add: last_or_append)

lemma links_append:
  "links h pr (xs @ ys) nx
     \<longleftrightarrow> links h pr xs (hd_or ys nx) \<and> links h (last_or xs pr) ys nx"
  by (induction xs arbitrary: pr) (auto simp: hd_or_append)

lemma tile_append:
  "tile h T (xs @ ys) B
     \<longleftrightarrow> tile h T xs (if xs = [] then T else unat (last xs))
         \<and> tile h (if xs = [] then T else unat (last xs)) ys B"
  by (induction xs arbitrary: T) auto

lemma tile_le: "tile h T xs B \<Longrightarrow> B \<le> T"
proof (induction xs arbitrary: T)
  case Nil
  then show ?case by simp
next
  case (Cons y ys)
  from Cons.IH [of "unat y"] Cons.prems show ?case by simp
qed

lemma tile_bounds:
  "tile h T xs B \<Longrightarrow> x \<in> set xs \<Longrightarrow> B \<le> unat x \<and> unat x < T"
proof (induction xs arbitrary: T)
  case Nil
  then show ?case by simp
next
  case (Cons y ys)
  from Cons.prems have t: "tile h (unat y) ys B" by simp
  show ?case
  proof (cases "x = y")
    case True
    with Cons.prems tile_le [OF t] show ?thesis by simp
  next
    case False
    with Cons.prems Cons.IH [OF t] show ?thesis by auto
  qed
qed

lemma tile_distinct: "tile h T xs B \<Longrightarrow> distinct xs"
proof (induction xs arbitrary: T)
  case Nil
  then show ?case by simp
next
  case (Cons y ys)
  from Cons.prems have t: "tile h (unat y) ys B" by simp
  have "y \<notin> set ys"
    using tile_bounds [OF t, of y] by auto
  with Cons.IH [OF t] show ?case by simp
qed

lemma tile_nonzero: "tile h T xs B \<Longrightarrow> 0 < B \<Longrightarrow> 0 \<notin> set xs"
  using tile_bounds [of h T xs B 0] by auto

text \<open>The predicates depend only on the members they mention, at the listed headers.\<close>

lemma links_cong:
  "(\<And>y. y \<in> set xs \<Longrightarrow> p_prev (h' y) = p_prev (h y) \<and> p_next (h' y) = p_next (h y))
     \<Longrightarrow> links h' pr xs nx = links h pr xs nx"
  by (induction xs arbitrary: pr) auto

lemma tile_cong:
  "(\<And>y. y \<in> set xs \<Longrightarrow> block_size (h' y) = block_size (h y))
     \<Longrightarrow> tile h' T xs B = tile h T xs B"
  by (induction xs arbitrary: T) auto

lemma tags_cong:
  "(\<And>y. y \<in> set xs \<Longrightarrow> p_status (h' y) = p_status (h y))
     \<Longrightarrow> tags h' pf xs = tags h pf xs"
  by (induction xs arbitrary: pf) auto

lemma tags_weaken: "tags h True xs \<Longrightarrow> tags h pf xs"
  by (cases xs) auto

lemma tags_append:
  "tags h pf (xs @ ys)
     \<longleftrightarrow> tags h pf xs \<and> tags h (if xs = [] then pf else p_status (h (last xs)) = FREE) ys"
  by (induction xs arbitrary: pf) auto

lemma tags_status:
  "tags h pf xs \<Longrightarrow> x \<in> set xs \<Longrightarrow> p_status (h x) = ALLOCATED \<or> p_status (h x) = FREE"
  by (induction xs arbitrary: pf) auto

lemma links_upd_other:
  "x \<notin> set xs \<Longrightarrow> links (h(x := r)) pr xs nx = links h pr xs nx"
  by (rule links_cong) auto

lemma tile_upd_other:
  "x \<notin> set xs \<Longrightarrow> tile (h(x := r)) T xs B = tile h T xs B"
  by (rule tile_cong) auto

lemma tags_upd_other:
  "x \<notin> set xs \<Longrightarrow> tags (h(x := r)) pf xs = tags h pf xs"
  by (rule tags_cong) auto

lemma links_set_prev:
  assumes "links h pr (v # zs) nx" and "v \<notin> set zs"
  shows "links (h(v := (h v)\<lparr>p_prev := pr'\<rparr>)) pr' (v # zs) nx"
  using assms by (simp add: links_upd_other)

lemma links_set_next:
  assumes "links h pr (ys @ [w]) nx" and "w \<notin> set ys"
  shows "links (h(w := (h w)\<lparr>p_next := nx'\<rparr>)) pr (ys @ [w]) nx'"
  using assms by (simp add: links_append links_upd_other)

lemma same_static_refl [simp]: "same_static h h"
  by (simp add: same_static_def)

lemma same_static_trans: "same_static h h' \<Longrightarrow> same_static h' h'' \<Longrightarrow> same_static h h''"
  by (simp add: same_static_def)

lemma same_static_tile: "same_static h h' \<Longrightarrow> tile h' T xs B = tile h T xs B"
  by (rule tile_cong) (simp add: same_static_def)

lemma same_static_tags: "same_static h h' \<Longrightarrow> tags h' pf xs = tags h pf xs"
  by (rule tags_cong) (simp add: same_static_def)

lemma remove_block_frame:
  assumes "remove_block p s = Returns s'"
  shows "same_static (hdrs s) (hdrs s')" and "bytes s' = bytes s" and "gstats s' = gstats s"
    and "default_buffer s' = default_buffer s"
  using assms
  by (auto simp: remove_block_def same_static_def Let_def split: if_splits)

lemma add_block_frame:
  "same_static (hdrs s) (hdrs (add_block p s))" "bytes (add_block p s) = bytes s"
  "gstats (add_block p s) = gstats s" "default_buffer (add_block p s) = default_buffer s"
  by (simp_all add: add_block_def same_static_def Let_def)

lemma insert_before_block_frame:
  "same_static (hdrs s) (hdrs (insert_before_block n x s))"
  "bytes (insert_before_block n x s) = bytes s"
  "gstats (insert_before_block n x s) = gstats s"
  "default_buffer (insert_before_block n x s) = default_buffer s"
  "head (insert_before_block n x s) = head s"
  by (simp_all add: insert_before_block_def same_static_def Let_def)

lemma add_block_links:
  assumes "links (hdrs s) 0 xs 0" and "head s = hd_or xs 0" and "distinct (x # xs)"
    and "0 \<notin> set (x # xs)"
  shows "links (hdrs (add_block x s)) 0 (x # xs) 0 \<and> head (add_block x s) = x"
proof (cases xs)
  case Nil
  with assms show ?thesis by (simp add: add_block_def Let_def)
next
  case (Cons y ys)
  with assms have ne: "y \<noteq> x" "y \<noteq> 0" by auto
  from Cons assms have "links ((hdrs s)(x := r, y := (hdrs s y)\<lparr>p_prev := x\<rparr>)) x (y # ys) 0" for r
    by (simp add: links_upd_other)
  with Cons assms ne show ?thesis
    by (simp add: add_block_def Let_def)
qed

lemma remove_block_links:
  assumes "links (hdrs s) 0 (ys @ u # zs) 0" and "head s = hd_or (ys @ u # zs) 0"
    and "distinct (ys @ u # zs)" and "0 \<notin> set (ys @ u # zs)"
  shows "\<exists>s'. remove_block u s = Returns s' \<and> links (hdrs s') 0 (ys @ zs) 0
           \<and> head s' = hd_or (ys @ zs) 0"
proof -
  from assms(1) have l: "links (hdrs s) 0 ys u" "p_prev (hdrs s u) = last_or ys 0"
    "p_next (hdrs s u) = hd_or zs 0" "links (hdrs s) u zs 0"
    by (simp_all add: links_append)
  from assms(2,4) have hn: "head s \<noteq> 0" "u \<noteq> 0"
    by (cases ys; auto)+
  show ?thesis
  proof (cases ys rule: rev_cases)
    case Nil
    note ys = Nil
    with assms(2) have hu: "head s = u" by simp
    show ?thesis
    proof (cases zs)
      case Nil
      with ys l hn hu show ?thesis
        by (simp add: remove_block_def Let_def)
    next
      case (Cons v zs')
      with assms(3,4) have d: "v \<noteq> 0" "v \<notin> set zs'" "v \<noteq> u" by auto
      from Cons l(4) links_set_prev [of "hdrs s" u v zs' 0 0] d
      have "links ((hdrs s)(v := (hdrs s v)\<lparr>p_prev := 0\<rparr>)) 0 (v # zs') 0"
        by simp
      with Cons ys l hn hu d show ?thesis
        by (simp add: remove_block_def Let_def)
    qed
  next
    case (snoc ys' w)
    note ys = snoc
    with assms(2,3) have hu: "head s \<noteq> u"
      by (cases ys') auto
    from ys assms(3,4) have dw: "w \<noteq> 0" "w \<notin> set ys'" "w \<noteq> u" "w \<notin> set zs" by auto
    from ys l(1) have nw: "p_next (hdrs s w) = u"
      by (simp add: links_append)
    from ys assms(2) have hd: "head s = hd_or (ys' @ [w]) 0"
      by (simp add: hd_or_append)
    show ?thesis
    proof (cases zs)
      case Nil
      from ys l(1) links_set_next [of "hdrs s" 0 ys' w u 0] dw
      have "links ((hdrs s)(w := (hdrs s w)\<lparr>p_next := 0\<rparr>)) 0 (ys' @ [w]) 0"
        by simp
      with Nil ys l hn hu dw nw hd show ?thesis
        by (simp add: remove_block_def Let_def hd_or_append)
    next
      case (Cons v zs')
      with ys assms(3,4) have d: "v \<noteq> 0" "v \<notin> set zs'" "v \<noteq> u" "v \<noteq> w" "v \<notin> set ys'"
        "w \<notin> set zs'"
        by auto
      let ?h1 = "(hdrs s)(v := (hdrs s v)\<lparr>p_prev := w\<rparr>)"
      let ?h2 = "?h1(w := (?h1 w)\<lparr>p_next := v\<rparr>)"
      have a: "links ?h2 0 (ys' @ [w]) v"
      proof (rule links_set_next)
        show "links ?h1 0 (ys' @ [w]) u"
          using ys l(1) d by (simp add: links_upd_other)
        show "w \<notin> set ys'" by (rule dw)
      qed
      have "links ?h1 w (v # zs') 0"
        using Cons l(4) links_set_prev [of "hdrs s" u v zs' 0 w] d by simp
      then have b: "links ?h2 w (v # zs') 0"
        using d by (simp add: links_upd_other)
      from a b have "links ?h2 0 ((ys' @ [w]) @ v # zs') 0"
        by (simp only: links_append) simp
      with Cons ys l hn hu dw nw hd d show ?thesis
        by (simp add: remove_block_def Let_def hd_or_append)
    qed
  qed
qed

lemma insert_before_block_links:
  assumes "links (hdrs s) 0 (ys @ w # x # zs) 0" and "distinct (ys @ w # x # zs)"
    and "0 \<notin> set (ys @ w # x # zs)" and "n \<notin> set (ys @ w # x # zs)"
  shows "links (hdrs (insert_before_block n x s)) 0 (ys @ w # n # x # zs) 0"
proof -
  let ?h = "hdrs s"
  from assms(1) have l: "links ?h 0 (ys @ [w]) x" "p_prev (?h x) = w"
    "p_next (?h x) = hd_or zs 0" "links ?h x zs 0"
    using links_append [of ?h 0 "ys @ [w]" "x # zs" 0] by simp_all
  from assms(2,3,4) have d: "w \<noteq> 0" "w \<noteq> x" "w \<noteq> n" "x \<noteq> n" "n \<notin> set ys" "n \<notin> set zs"
    "w \<notin> set ys" "x \<notin> set ys" "x \<notin> set zs" "w \<notin> set zs"
    by auto
  let ?h' = "?h(n := (?h n)\<lparr>p_next := x, p_prev := w\<rparr>,
                w := (?h w)\<lparr>p_next := n\<rparr>, x := (?h x)\<lparr>p_prev := n\<rparr>)"
  have e: "hdrs (insert_before_block n x s) = ?h'"
    using l d by (auto simp: insert_before_block_def Let_def fun_upd_twist)
  have a: "links ?h' 0 (ys @ [w]) n"
  proof -
    have "links (?h(n := (?h n)\<lparr>p_next := x, p_prev := w\<rparr>)) 0 (ys @ [w]) x"
      using l(1) d by (simp add: links_upd_other)
    from links_set_next [OF this d(7), of n]
    have "links (?h(n := (?h n)\<lparr>p_next := x, p_prev := w\<rparr>,
                w := (?h w)\<lparr>p_next := n\<rparr>)) 0 (ys @ [w]) n"
      using d by simp
    then show ?thesis
      using d by (simp add: links_upd_other)
  qed
  have b: "links ?h' w (n # x # zs) 0"
    using l d by (simp add: links_upd_other)
  from a b have "links ?h' 0 ((ys @ [w]) @ n # x # zs) 0"
    by (simp only: links_append) simp
  with e show ?thesis by simp
qed

lemma tags_allocate:
  assumes "tags h pf xs" and "pf' \<longrightarrow> pf"
    and "\<And>y. y \<noteq> x \<Longrightarrow> p_status (h' y) = p_status (h y)"
    and "p_status (h' x) = ALLOCATED"
  shows "tags h' pf' xs"
  using assms(1,2)
proof (induction xs arbitrary: pf pf')
  case Nil
  then show ?case by simp
next
  case (Cons y ys)
  show ?case
  proof (cases "y = x")
    case True
    from Cons.prems have "tags h (p_status (h y) = FREE) ys" by simp
    from Cons.IH [OF this, of False] True assms(4) show ?thesis
      by (simp add: FREE_def ALLOCATED_def)
  next
    case False
    from Cons.prems have "tags h (p_status (h y) = FREE) ys" by simp
    from Cons.IH [OF this, of "p_status (h y) = FREE"] False assms(3) [of y] Cons.prems
    show ?thesis by auto
  qed
qed

lemma wf_arena:
  assumes "wf s xs"
  shows "0 < unat (buffer (default_buffer s))"
    and "unat (buffer (default_buffer s)) + unat (buf_size (default_buffer s)) < 2 ^ 64"
    and "unat (pos (default_buffer s)) \<le> unat (buf_size (default_buffer s))"
    and "unat (buffer (default_buffer s) + pos (default_buffer s))
           = unat (buffer (default_buffer s)) + unat (pos (default_buffer s))"
proof -
  from assms show a: "0 < unat (buffer (default_buffer s))"
    and b: "unat (buffer (default_buffer s)) + unat (buf_size (default_buffer s)) < 2 ^ 64"
    and c: "unat (pos (default_buffer s)) \<le> unat (buf_size (default_buffer s))"
    by (simp_all add: wf_def)
  from b c have "unat (buffer (default_buffer s)) + unat (pos (default_buffer s)) < 2 ^ 64"
    by simp
  then show "unat (buffer (default_buffer s) + pos (default_buffer s))
           = unat (buffer (default_buffer s)) + unat (pos (default_buffer s))"
    by (simp add: unat_add_lem [where 'a = 64, simplified])
qed

lemma wf_parts:
  assumes "wf s xs"
  shows "links (hdrs s) 0 xs 0"
    and "tile (hdrs s) (unat (buffer (default_buffer s)) + unat (pos (default_buffer s))) xs
           (unat (buffer (default_buffer s)))"
    and "tags (hdrs s) True xs" and "head s = hd_or xs 0"
    and "distinct xs" and "0 \<notin> set xs"
proof -
  from assms show l: "links (hdrs s) 0 xs 0"
    and t: "tile (hdrs s) (unat (buffer (default_buffer s)) + unat (pos (default_buffer s))) xs
           (unat (buffer (default_buffer s)))"
    and "tags (hdrs s) True xs" and "head s = hd_or xs 0"
    by (simp_all add: wf_def)
  from t show "distinct xs" by (rule tile_distinct)
  from t wf_arena(1) [OF assms] show "0 \<notin> set xs" by (rule tile_nonzero)
qed

lemma generate_alloc_block_static:
  "y \<noteq> p \<Longrightarrow> hdrs (generate_alloc_block p b ps f l s) y = hdrs s y"
  "p_next (hdrs (generate_alloc_block p b ps f l s) y) = p_next (hdrs s y)"
  "p_prev (hdrs (generate_alloc_block p b ps f l s) y) = p_prev (hdrs s y)"
  "block_size (hdrs (generate_alloc_block p b ps f l s) p) = b"
  "p_status (hdrs (generate_alloc_block p b ps f l s) p) = ALLOCATED"
  "p_payload (hdrs (generate_alloc_block p b ps f l s) p) = p + sizeof_header"
  "p_end_marker (hdrs (generate_alloc_block p b ps f l s) p) = p + sizeof_header + ps"
  by (simp_all add: generate_alloc_block_hdrs)

lemma wfI:
  assumes "0 < unat (buffer (default_buffer s))"
    and "unat (buffer (default_buffer s)) + unat (buf_size (default_buffer s)) < 2 ^ 64"
    and "unat (pos (default_buffer s)) \<le> unat (buf_size (default_buffer s))"
    and "links (hdrs s) 0 xs 0"
    and "tile (hdrs s) (unat (buffer (default_buffer s)) + unat (pos (default_buffer s))) xs
           (unat (buffer (default_buffer s)))"
    and "tags (hdrs s) True xs" and "head s = hd_or xs 0"
  shows "wf s xs"
  using assms unfolding wf_def by blast

lemma wf_carve:
  assumes "wf s xs" and "bsz \<le> buf_size (default_buffer s) - pos (default_buffer s)"
    and "bsz \<noteq> 0"
  shows "wf (carve bsz psz f l s) ((buffer (default_buffer s) + pos (default_buffer s)) # xs)"
proof -
  let ?B = "unat (buffer (default_buffer s))" and ?P = "unat (pos (default_buffer s))"
  let ?S = "unat (buf_size (default_buffer s))"
  let ?x = "buffer (default_buffer s) + pos (default_buffer s)"
  let ?s1 = "generate_alloc_block ?x bsz psz f l s"
  let ?s2 = "add_block ?x ?s1"
  note ar = wf_arena [OF assms(1)] and pt = wf_parts [OF assms(1)]
  have ux: "unat ?x = ?B + ?P" by (rule ar(4))
  have xn: "?x \<notin> set xs"
    using tile_bounds [OF pt(2), of ?x] ux by auto
  have x0: "?x \<noteq> 0"
    using ux ar(1) by (auto simp: unat_eq_0 [symmetric] simp del: unat_eq_0)
  from ar(3) have "pos (default_buffer s) \<le> buf_size (default_buffer s)"
    by (simp add: word_le_nat_alt)
  then have "unat (buf_size (default_buffer s) - pos (default_buffer s)) = ?S - ?P"
    by (rule unat_sub)
  with assms(2) have room: "unat bsz \<le> ?S - ?P"
    by (simp add: word_le_nat_alt)
  with ar have "?P + unat bsz < 2 ^ 64" by simp
  then have up: "unat (pos (default_buffer s) + bsz) = ?P + unat bsz"
    by (simp add: unat_add_lem [where 'a = 64, simplified])
  from assms(3) have bp: "0 < unat bsz"
    by (simp add: unat_gt_0)
  have l1: "links (hdrs ?s1) 0 xs 0"
    using pt(1) xn by (simp add: generate_alloc_block_hdrs links_upd_other)
  have h1: "head ?s1 = hd_or xs 0"
    using pt(4) by (simp add: generate_alloc_block_frame)
  from add_block_links [OF l1 h1] pt(5,6) xn x0
  have l2: "links (hdrs ?s2) 0 (?x # xs) 0" and h2: "head ?s2 = ?x"
    by simp_all
  note st = add_block_frame(1) [of ?s1 ?x]
  have t2: "tile (hdrs ?s2) (?B + ?P + unat bsz) (?x # xs) ?B"
  proof -
    have "tile (hdrs ?s1) (?B + ?P + unat bsz) (?x # xs) ?B"
      using pt(2) xn ux bp
      by (simp add: generate_alloc_block_static(4)) (simp add: generate_alloc_block_hdrs tile_upd_other)
    then show ?thesis
      by (simp only: same_static_tile [OF st])
  qed
  have g2: "tags (hdrs ?s2) True (?x # xs)"
  proof -
    have "tags (hdrs ?s1) True (?x # xs)"
      using tags_weaken [OF pt(3), of False] xn
      by (simp add: generate_alloc_block_static(5))
         (simp add: generate_alloc_block_hdrs tags_upd_other FREE_def ALLOCATED_def)
    then show ?thesis
      by (simp only: same_static_tags [OF st])
  qed
  have c: "hdrs (carve bsz psz f l s) = hdrs ?s2" "head (carve bsz psz f l s) = head ?s2"
    "buffer (default_buffer (carve bsz psz f l s)) = buffer (default_buffer s)"
    "buf_size (default_buffer (carve bsz psz f l s)) = buf_size (default_buffer s)"
    "pos (default_buffer (carve bsz psz f l s)) = pos (default_buffer s) + bsz"
    by (simp_all add: carve_def)
  show ?thesis
  proof (rule wfI)
    show "0 < unat (buffer (default_buffer (carve bsz psz f l s)))"
      unfolding c by (rule ar(1))
    show "unat (buffer (default_buffer (carve bsz psz f l s)))
        + unat (buf_size (default_buffer (carve bsz psz f l s))) < 2 ^ 64"
      unfolding c by (rule ar(2))
    show "unat (pos (default_buffer (carve bsz psz f l s)))
        \<le> unat (buf_size (default_buffer (carve bsz psz f l s)))"
      unfolding c up using room ar(3) by simp
    show "links (hdrs (carve bsz psz f l s)) 0 (?x # xs) 0"
      unfolding c by (rule l2)
    show "tile (hdrs (carve bsz psz f l s))
        (unat (buffer (default_buffer (carve bsz psz f l s)))
           + unat (pos (default_buffer (carve bsz psz f l s)))) (?x # xs)
        (unat (buffer (default_buffer (carve bsz psz f l s))))"
      unfolding c up add.assoc [symmetric] by (rule t2)
    show "tags (hdrs (carve bsz psz f l s)) True (?x # xs)"
      unfolding c by (rule g2)
    show "head (carve bsz psz f l s) = hd_or (?x # xs) 0"
      unfolding c using h2 by simp
  qed
qed

lemma wf_allocate:
  assumes "wf s xs" and "x \<in> set xs"
  shows "wf (generate_alloc_block x (block_size (hdrs s x)) ps f l s) xs"
proof -
  let ?s1 = "generate_alloc_block x (block_size (hdrs s x)) ps f l s"
  note ar = wf_arena [OF assms(1)] and pt = wf_parts [OF assms(1)]
  show ?thesis
  proof (rule wfI)
    show "0 < unat (buffer (default_buffer ?s1))"
      and "unat (buffer (default_buffer ?s1)) + unat (buf_size (default_buffer ?s1)) < 2 ^ 64"
      and "unat (pos (default_buffer ?s1)) \<le> unat (buf_size (default_buffer ?s1))"
      using ar by (simp_all add: generate_alloc_block_frame)
    have "links (hdrs ?s1) 0 xs 0 = links (hdrs s) 0 xs 0"
      by (rule links_cong) (simp add: generate_alloc_block_static)
    with pt(1) show "links (hdrs ?s1) 0 xs 0" by simp
    have "tile (hdrs ?s1) T xs B = tile (hdrs s) T xs B" for T B
      by (rule tile_cong) (simp add: generate_alloc_block_hdrs)
    with pt(2) show "tile (hdrs ?s1)
        (unat (buffer (default_buffer ?s1)) + unat (pos (default_buffer ?s1))) xs
        (unat (buffer (default_buffer ?s1)))"
      by (simp add: generate_alloc_block_frame)
    show "tags (hdrs ?s1) True xs"
      by (rule tags_allocate [OF pt(3), of True x]) (simp_all add: generate_alloc_block_static)
    show "head ?s1 = hd_or xs 0"
      using pt(4) by (simp add: generate_alloc_block_frame)
  qed
qed

lemma split_block_split:
  assumes "\<not> block_size (hdrs s x) - r < MIN_BLOCK_SIZE"
  shows "split_block x r s =
     (let s2 = generate_free_block (x + r) (block_size (hdrs s x) - r) (p_file (hdrs s x))
                 (line (hdrs s x)) s;
          s3 = insert_before_block (x + r) x s2
      in s3\<lparr>hdrs := (hdrs s3)(x := (hdrs s3 x)\<lparr>block_size := r\<rparr>)\<rparr>)"
  using assms by (simp add: split_block_def Let_def)

lemma generate_free_block_hdrs:
  "hdrs (generate_free_block p b f l s)
     = (hdrs s)(p := (hdrs s p)\<lparr>block_size := b, p_payload := p + sizeof_header,
          p_file := f, line := l, p_status := FREE, p_end_marker := 0\<rparr>)"
  by (simp add: generate_free_block_def generate_generic_block_def Let_def)

lemma generate_free_block_frame:
  "bytes (generate_free_block p b f l s) = bytes s"
  "gstats (generate_free_block p b f l s) = gstats s"
  "default_buffer (generate_free_block p b f l s) = default_buffer s"
  "head (generate_free_block p b f l s) = head s"
  by (simp_all add: generate_free_block_def generate_generic_block_def Let_def)

lemma wf_split:
  assumes "wf s (ys @ w # x # zs)" and "p_status (hdrs s x) = ALLOCATED"
    and "p_status (hdrs s w) \<noteq> FREE"
    and "r \<noteq> 0" and "r \<le> block_size (hdrs s x)"
    and "\<not> block_size (hdrs s x) - r < MIN_BLOCK_SIZE"
  shows "wf (split_block x r s) (ys @ w # (x + r) # x # zs)"
    and "x + r \<notin> set (ys @ w # x # zs)"
    and "p_status (hdrs (split_block x r s) (x + r)) = FREE"
    and "\<And>y. y \<noteq> x + r \<Longrightarrow> p_status (hdrs (split_block x r s) y) = p_status (hdrs s y)
          \<and> p_payload (hdrs (split_block x r s) y) = p_payload (hdrs s y)
          \<and> p_end_marker (hdrs (split_block x r s) y) = p_end_marker (hdrs s y)"
proof -
  let ?xs = "ys @ w # x # zs"
  let ?B = "unat (buffer (default_buffer s))" and ?P = "unat (pos (default_buffer s))"
  let ?h = "hdrs s"
  let ?n = "x + r" and ?res = "block_size (?h x) - r"
  let ?s2 = "generate_free_block ?n ?res (p_file (?h x)) (line (?h x)) s"
  let ?s3 = "insert_before_block ?n x ?s2"
  define s' where "s' = ?s3\<lparr>hdrs := (hdrs ?s3)(x := (hdrs ?s3 x)\<lparr>block_size := r\<rparr>)\<rparr>"
  note ar = wf_arena [OF assms(1)] and pt = wf_parts [OF assms(1)]
  have sp: "split_block x r s = s'"
    using assms(6) by (simp add: split_block_split Let_def s'_def)
  from pt(2) have t: "tile ?h (?B + ?P) (ys @ [w]) (unat w)" "tile ?h (unat w) (x # zs) ?B"
    using tile_append [of ?h "?B + ?P" "ys @ [w]" "x # zs" ?B] by simp_all
  from t(2) have tx: "unat x + unat (block_size (?h x)) = unat w" "tile ?h (unat x) zs ?B"
    by simp_all
  from tile_bounds [OF pt(2), of w] ar have wb: "unat w < 2 ^ 64"
    by simp
  from assms(5) have rl: "unat r \<le> unat (block_size (?h x))"
    by (simp add: word_le_nat_alt)
  from assms(5) have ures: "unat ?res = unat (block_size (?h x)) - unat r"
    by (rule unat_sub)
  from assms(6) have "80 \<le> unat ?res"
    by (simp add: MIN_BLOCK_SIZE_def sizeof_header_def ALIGNMENT_def word_less_nat_alt
        not_less)
  with ures have res: "0 < unat ?res" "unat r < unat (block_size (?h x))"
    by simp_all
  from assms(4) have rp: "0 < unat r"
    by (simp add: unat_gt_0)
  from tx(1) rl wb have "unat x + unat r < 2 ^ 64" by simp
  then have un: "unat ?n = unat x + unat r"
    by (simp add: unat_add_lem [where 'a = 64, simplified])
  have nys: "?n \<notin> set (ys @ [w])"
    using tile_bounds [OF t(1), of ?n] un tx(1) res by auto
  have nzs: "?n \<notin> set zs"
    using tile_bounds [OF tx(2), of ?n] un by auto
  from un rp have nx: "?n \<noteq> x" by auto
  from nys nzs nx show nn: "?n \<notin> set ?xs" by simp
  have l2: "links (hdrs ?s2) 0 ?xs 0"
    using pt(1) by (simp only: generate_free_block_hdrs links_upd_other [OF nn])
  from insert_before_block_links [OF l2 pt(5,6) nn]
  have l3: "links (hdrs ?s3) 0 (ys @ w # ?n # x # zs) 0" .
  have l': "links (hdrs s') 0 (ys @ w # ?n # x # zs) 0"
    using l3 by (subst links_cong [of _ _ "hdrs ?s3"]) (simp_all add: s'_def)
  have st: "block_size (hdrs ?s3 y) = block_size (hdrs ?s2 y)"
    "p_status (hdrs ?s3 y) = p_status (hdrs ?s2 y)"
    "p_payload (hdrs ?s3 y) = p_payload (hdrs ?s2 y)"
    "p_end_marker (hdrs ?s3 y) = p_end_marker (hdrs ?s2 y)" for y
    using insert_before_block_frame(1) [of ?s2 ?n x] unfolding same_static_def by blast+
  have bs: "block_size (hdrs s' x) = r" "block_size (hdrs s' ?n) = ?res"
    "\<And>y. y \<noteq> x \<Longrightarrow> y \<noteq> ?n \<Longrightarrow> block_size (hdrs s' y) = block_size (?h y)"
    using assms(4) by (simp_all add: s'_def st generate_free_block_hdrs)
  have ps: "p_status (hdrs s' ?n) = FREE"
    "\<And>y. y \<noteq> ?n \<Longrightarrow> p_status (hdrs s' y) = p_status (?h y)
          \<and> p_payload (hdrs s' y) = p_payload (?h y)
          \<and> p_end_marker (hdrs s' y) = p_end_marker (?h y)"
    using assms(4) by (simp_all add: s'_def st generate_free_block_hdrs)
  from ps sp show "p_status (hdrs (split_block x r s) ?n) = FREE"
    and "\<And>y. y \<noteq> ?n \<Longrightarrow> p_status (hdrs (split_block x r s) y) = p_status (hdrs s y)
          \<and> p_payload (hdrs (split_block x r s) y) = p_payload (hdrs s y)
          \<and> p_end_marker (hdrs (split_block x r s) y) = p_end_marker (hdrs s y)"
    by simp_all
  have t1': "tile (hdrs s') (?B + ?P) (ys @ [w]) (unat w)"
    using t(1) nys pt(5) by (subst tile_cong [of _ _ ?h]) (auto intro!: bs(3))
  have tz': "tile (hdrs s') (unat x) zs ?B"
    using tx(2) nzs pt(5) by (subst tile_cong [of _ _ ?h]) (auto intro!: bs(3))
  have t2': "tile (hdrs s') (unat w) (?n # x # zs) ?B"
    using tz' bs(1,2) un ures res rp tx(1) rl by simp
  from t1' t2' have t': "tile (hdrs s') (?B + ?P) ((ys @ [w]) @ ?n # x # zs) ?B"
    by (simp only: tile_append) simp
  from pt(3) have g: "tags ?h True (ys @ [w])" "tags ?h (p_status (?h w) = FREE) (x # zs)"
    using tags_append [of ?h True "ys @ [w]" "x # zs"] by simp_all
  have g1': "tags (hdrs s') True (ys @ [w])"
    using g(1) nys by (subst tags_cong [of _ _ ?h]) (auto intro!: ps(2) [THEN conjunct1])
  have gz': "tags (hdrs s') False zs"
    using g(2) assms(2) nzs
    by (subst tags_cong [of _ _ ?h])
       (auto intro!: ps(2) [THEN conjunct1] simp: FREE_def ALLOCATED_def)
  have g2': "tags (hdrs s') (p_status (hdrs s' w) = FREE) (?n # x # zs)"
    using gz' ps(1) ps(2) [of x] ps(2) [of w] nx nys assms(2,3)
    by (auto simp: FREE_def ALLOCATED_def)
  from g1' g2' have g': "tags (hdrs s') True ((ys @ [w]) @ ?n # x # zs)"
    by (simp only: tags_append) simp
  have fr: "default_buffer s' = default_buffer s" "head s' = head s"
    by (simp_all add: s'_def insert_before_block_frame generate_free_block_frame)
  have "wf s' (ys @ w # ?n # x # zs)"
  proof (rule wfI)
    show "0 < unat (buffer (default_buffer s'))"
      and "unat (buffer (default_buffer s')) + unat (buf_size (default_buffer s')) < 2 ^ 64"
      and "unat (pos (default_buffer s')) \<le> unat (buf_size (default_buffer s'))"
      unfolding fr using ar by simp_all
    show "links (hdrs s') 0 (ys @ w # ?n # x # zs) 0" by (rule l')
    show "tile (hdrs s')
        (unat (buffer (default_buffer s')) + unat (pos (default_buffer s')))
        (ys @ w # ?n # x # zs) (unat (buffer (default_buffer s')))"
      unfolding fr using t' by simp
    show "tags (hdrs s') True (ys @ w # ?n # x # zs)"
      using g' by simp
    show "head s' = hd_or (ys @ w # ?n # x # zs) 0"
      unfolding fr using pt(4) by (simp add: hd_or_append)
  qed
  with sp show "wf (split_block x r s) (ys @ w # ?n # x # zs)" by simp
qed

lemma unat_add64:
  "unat (a :: 64 word) + unat b < 18446744073709551616 \<Longrightarrow> unat (a + b) = unat a + unat b"
  by (simp add: unat_add_lem [where 'a = 64, simplified, THEN iffD1])

lemma unat_max64: "unat (a :: 64 word) \<le> 18446744073709551615"
proof -
  have "unat a < 2 ^ LENGTH(64)" by (rule unsigned_less)
  then show ?thesis by simp
qed

lemma malloc_padding_bounds: "8 \<le> unat (malloc_padding sz) \<and> unat (malloc_padding sz) \<le> 23"
proof -
  let ?m = "(sizeof_header + sz) mod ALIGNMENT"
  have m: "unat ?m < 16"
    by (simp add: ALIGNMENT_def unat_mod)
  then have "?m \<le> 16"
    by (simp add: word_le_nat_alt)
  then have d: "unat (16 - ?m) = 16 - unat ?m"
    by (simp add: unat_sub)
  show ?thesis
  proof (cases "ALIGNMENT - ?m < sizeof_END_MARKER")
    case True
    then have lt: "unat (16 - ?m) < 8"
      by (simp add: ALIGNMENT_def sizeof_END_MARKER_def word_less_nat_alt)
    then have "unat (16 - ?m) + unat (16 :: 64 word) < 18446744073709551616"
      by simp
    then have "unat ((16 - ?m) + 16) = unat (16 - ?m) + unat (16 :: 64 word)"
      by (rule unat_add64)
    moreover have "unat (16 :: 64 word) = 16" by simp
    ultimately have "8 \<le> unat ((16 - ?m) + 16) \<and> unat ((16 - ?m) + 16) \<le> 23"
      using lt d m by arith
    moreover from True have "malloc_padding sz = (16 - ?m) + 16"
      by (simp add: malloc_padding_def Let_def ALIGNMENT_def)
    ultimately show ?thesis by (simp only:)
  next
    case False
    then have "8 \<le> unat (16 - ?m)"
      by (simp add: ALIGNMENT_def sizeof_END_MARKER_def word_less_nat_alt not_less)
    with d m have "8 \<le> unat (16 - ?m) \<and> unat (16 - ?m) \<le> 23"
      by simp
    moreover from False have "malloc_padding sz = 16 - ?m"
      by (simp add: malloc_padding_def Let_def ALIGNMENT_def)
    ultimately show ?thesis by (simp only:)
  qed
qed

lemma malloc_block_size:
  assumes "\<not> sz > SIZE_MAX - malloc_padding sz - sizeof_header"
  shows "unat (sizeof_header + sz + malloc_padding sz) = 64 + unat sz + unat (malloc_padding sz)"
proof -
  note pb = malloc_padding_bounds [of sz]
  have "malloc_padding sz \<le> SIZE_MAX"
    using unat_max64 [of "malloc_padding sz"] by (simp add: SIZE_MAX_def word_le_nat_alt)
  then have a: "unat (SIZE_MAX - malloc_padding sz) = 18446744073709551615 - unat (malloc_padding sz)"
    by (simp add: unat_sub SIZE_MAX_def)
  with pb have "unat (64 :: 64 word) \<le> unat (SIZE_MAX - malloc_padding sz)"
    by simp linarith
  then have "sizeof_header \<le> SIZE_MAX - malloc_padding sz"
    by (simp only: word_le_nat_alt sizeof_header_def)
  then have "unat (SIZE_MAX - malloc_padding sz - sizeof_header)
      = 18446744073709551615 - unat (malloc_padding sz) - 64"
    by (simp add: unat_sub a sizeof_header_def)
  with assms have b: "unat sz \<le> 18446744073709551615 - unat (malloc_padding sz) - 64"
    by (simp add: word_less_nat_alt not_less)
  with pb have "unat (64 :: 64 word) + unat sz < 18446744073709551616" by simp
  then have c: "unat (64 + sz) = unat (64 :: 64 word) + unat sz"
    by (rule unat_add64)
  have u64: "unat (64 :: 64 word) = 64" by simp
  from c b pb u64 have "unat (64 + sz) + unat (malloc_padding sz) < 18446744073709551616"
    by arith
  then have "unat (64 + sz + malloc_padding sz) = unat (64 + sz) + unat (malloc_padding sz)"
    by (rule unat_add64)
  with c u64 show ?thesis
    by (simp add: sizeof_header_def)
qed

lemma malloc_block_size_nonzero:
  assumes "\<not> sz > SIZE_MAX - malloc_padding sz - sizeof_header"
  shows "sizeof_header + sz + malloc_padding sz \<noteq> 0"
proof
  assume "sizeof_header + sz + malloc_padding sz = 0"
  then have "unat (sizeof_header + sz + malloc_padding sz) = 0" by simp
  with malloc_block_size [OF assms] show False by simp
qed

lemma links_next_in:
  "links h pr xs nx \<Longrightarrow> x \<in> set xs \<Longrightarrow> p_next (h x) \<in> set xs \<or> p_next (h x) = nx"
proof (induction xs arbitrary: pr)
  case Nil
  then show ?case by simp
next
  case (Cons y ys)
  then show ?case by (cases ys) auto
qed

lemma scan_result:
  assumes "find_freed_block_from p r ps f l s = Some y" and "links (hdrs s) 0 xs 0"
    and "p = 0 \<or> p \<in> set xs"
  shows "fst y = 0 \<and> snd y = s
     \<or> (\<exists>x \<in> set xs. p_status (hdrs s x) = FREE \<and> r \<le> block_size (hdrs s x)
           \<and> y = (x + sizeof_header,
                split_block x r (generate_alloc_block x (block_size (hdrs s x)) ps f l s)))"
proof -
  have "links (hdrs s) 0 xs 0 \<longrightarrow> p = 0 \<or> p \<in> set xs \<longrightarrow>
     fst y = 0 \<and> snd y = s
     \<or> (\<exists>x \<in> set xs. p_status (hdrs s x) = FREE \<and> r \<le> block_size (hdrs s x)
           \<and> y = (x + sizeof_header,
                split_block x r (generate_alloc_block x (block_size (hdrs s x)) ps f l s)))"
  proof (rule find_freed_block_from.raw_induct
        [where P = "\<lambda>p r ps f l s y. links (hdrs s) 0 xs 0 \<longrightarrow> p = 0 \<or> p \<in> set xs \<longrightarrow>
     fst y = 0 \<and> snd y = s
     \<or> (\<exists>x \<in> set xs. p_status (hdrs s x) = FREE \<and> r \<le> block_size (hdrs s x)
           \<and> y = (x + sizeof_header,
                split_block x r (generate_alloc_block x (block_size (hdrs s x)) ps f l s)))",
         OF _ assms(1)], goal_cases)
    case (1 ff p r ps f l s y)
    show ?case
    proof (intro impI)
      assume lk: "links (hdrs s) 0 xs 0" and pin: "p = 0 \<or> p \<in> set xs"
      show "fst y = 0 \<and> snd y = s
     \<or> (\<exists>x \<in> set xs. p_status (hdrs s x) = FREE \<and> r \<le> block_size (hdrs s x)
           \<and> y = (x + sizeof_header,
                split_block x r (generate_alloc_block x (block_size (hdrs s x)) ps f l s)))"
      proof (cases "p = 0")
        case True
        with 1 show ?thesis by auto
      next
        case False
        show ?thesis
        proof (cases "p_status (hdrs s p) = FREE \<and> r \<le> block_size (hdrs s p)")
          case True
          with False 1(2) have "y = (p + sizeof_header,
                split_block p r (generate_alloc_block p (block_size (hdrs s p)) ps f l s))"
            by (auto simp: Let_def found_payload)
          with True False pin show ?thesis by auto
        next
          case nofit: False
          with False 1(2) have a: "ff (p_next (hdrs s p)) r ps f l s = Some y"
            by auto
          from False pin links_next_in [OF lk, of p]
          have "p_next (hdrs s p) = 0 \<or> p_next (hdrs s p) \<in> set xs" by auto
          with 1(1) [OF a] lk show ?thesis by blast
        qed
      qed
    qed
  qed
  with assms(2,3) show ?thesis by blast
qed

lemma FREE_ALLOCATED [simp]: "FREE \<noteq> ALLOCATED" "ALLOCATED \<noteq> FREE"
  by (simp_all add: FREE_def ALLOCATED_def)

lemma tags_free_has_pred:
  assumes "tags h True (ys @ x # zs)" and "p_status (h x) = FREE"
  obtains ys' w where "ys = ys' @ [w]" and "p_status (h w) \<noteq> FREE"
proof (cases ys rule: rev_cases)
  case Nil
  with assms show ?thesis by simp
next
  case (snoc ys' w)
  with assms have "tags h (p_status (h w) = FREE) (x # zs)"
    using tags_append [of h True "ys' @ [w]" "x # zs"] by simp
  with assms(2) have "p_status (h w) \<noteq> FREE" by simp
  with snoc that show ?thesis by blast
qed

lemma wf_found:
  assumes "wf s xs" and "x \<in> set xs" and "p_status (hdrs s x) = FREE"
    and "r \<le> block_size (hdrs s x)" and "r \<noteq> 0"
    and s1_def: "s1 = split_block x r (generate_alloc_block x (block_size (hdrs s x)) psz f l s)"
  shows "\<exists>xs'. wf s1 xs' \<and> set xs \<subseteq> set xs'
     \<and> p_status (hdrs s1 x) = ALLOCATED \<and> p_payload (hdrs s1 x) = x + sizeof_header
     \<and> p_end_marker (hdrs s1 x) = x + sizeof_header + psz
     \<and> (\<forall>y \<in> set xs. y \<noteq> x \<longrightarrow> p_status (hdrs s1 y) = p_status (hdrs s y)
           \<and> p_payload (hdrs s1 y) = p_payload (hdrs s y)
           \<and> p_end_marker (hdrs s1 y) = p_end_marker (hdrs s y))"
proof -
  let ?sa = "generate_alloc_block x (block_size (hdrs s x)) psz f l s"
  note wa = wf_allocate [OF assms(1,2), of psz f l]
  have sa: "block_size (hdrs ?sa x) = block_size (hdrs s x)" "p_status (hdrs ?sa x) = ALLOCATED"
    "p_payload (hdrs ?sa x) = x + sizeof_header"
    "p_end_marker (hdrs ?sa x) = x + sizeof_header + psz"
    "\<And>y. y \<noteq> x \<Longrightarrow> hdrs ?sa y = hdrs s y"
    by (simp_all add: generate_alloc_block_static)
  show ?thesis
  proof (cases "block_size (hdrs s x) - r < MIN_BLOCK_SIZE")
    case True
    then have "s1 = ?sa"
      by (simp add: s1_def split_block_none sa(1))
    with wa sa show ?thesis by auto
  next
    case False
    from assms(2) obtain ys zs where xs: "xs = ys @ x # zs"
      by (auto dest: split_list)
    from wf_parts(3) [OF assms(1)] xs assms(3) obtain ys' w where
      ys: "ys = ys' @ [w]" and w: "p_status (hdrs s w) \<noteq> FREE"
      by (auto elim: tags_free_has_pred)
    from wf_parts(5) [OF assms(1)] xs ys have wx: "w \<noteq> x" by auto
    have wa': "wf ?sa (ys' @ w # x # zs)"
      using wa xs ys by simp
    have c: "p_status (hdrs ?sa w) \<noteq> FREE" "r \<le> block_size (hdrs ?sa x)"
      "\<not> block_size (hdrs ?sa x) - r < MIN_BLOCK_SIZE"
      using w wx assms(4) False by (simp_all add: sa)
    note sp = wf_split [OF wa' sa(2) c(1) assms(5) c(2,3)]
    from sp(2) have nx: "x \<noteq> x + r" "x + r \<notin> set xs"
      using xs ys by auto
    have "wf s1 (ys' @ w # (x + r) # x # zs)"
      using sp(1) by (simp add: s1_def)
    moreover have "set xs \<subseteq> set (ys' @ w # (x + r) # x # zs)"
      using xs ys by auto
    moreover have "p_status (hdrs s1 y) = p_status (hdrs ?sa y)
        \<and> p_payload (hdrs s1 y) = p_payload (hdrs ?sa y)
        \<and> p_end_marker (hdrs s1 y) = p_end_marker (hdrs ?sa y)" if "y \<in> set xs" for y
      using sp(4) [of y] that nx(2) by (auto simp: s1_def)
    ultimately show ?thesis
      using sa assms(2) by (intro exI [of _ "ys' @ w # (x + r) # x # zs"]) auto
  qed
qed

lemma wf_gstats [simp]: "wf (s\<lparr>gstats := g\<rparr>) xs = wf s xs"
  by (simp add: wf_def)

lemma wf_add_to_statistics [simp]: "wf (add_to_statistics sz p s) xs = wf s xs"
  by (simp add: add_to_statistics_def Let_def)

lemma carve_static:
  assumes "y \<noteq> buffer (default_buffer s) + pos (default_buffer s)"
  shows "p_status (hdrs (carve bsz psz f l s) y) = p_status (hdrs s y)"
    and "p_payload (hdrs (carve bsz psz f l s) y) = p_payload (hdrs s y)"
    and "p_end_marker (hdrs (carve bsz psz f l s) y) = p_end_marker (hdrs s y)"
proof -
  let ?x = "buffer (default_buffer s) + pos (default_buffer s)"
  have "same_static (hdrs (generate_alloc_block ?x bsz psz f l s)) (hdrs (carve bsz psz f l s))"
    using add_block_frame(1) [of "generate_alloc_block ?x bsz psz f l s" ?x]
    by (simp add: carve_def)
  with assms show "p_status (hdrs (carve bsz psz f l s) y) = p_status (hdrs s y)"
    and "p_payload (hdrs (carve bsz psz f l s) y) = p_payload (hdrs s y)"
    and "p_end_marker (hdrs (carve bsz psz f l s) y) = p_end_marker (hdrs s y)"
    by (simp_all add: same_static_def generate_alloc_block_static)
qed

text \<open>
  A successful allocation in a well-formed heap: the heap stays well-formed, the block
  in front of the returned pointer is listed and allocated with the requested payload
  size, it was not an allocated block of the list before, and no other listed block has
  changed its status or its payload bounds.
\<close>

lemma wf_malloc:
  assumes "wf s xs" and "m61_malloc sz f l s = Some (p, s')" and "p \<noteq> 0"
  shows "\<exists>xs'. wf s' xs' \<and> set xs \<subseteq> set xs' \<and> p - sizeof_header \<in> set xs'
     \<and> p_status (hdrs s' (p - sizeof_header)) = ALLOCATED
     \<and> get_payload_size (p - sizeof_header) s' = sz
     \<and> (p - sizeof_header \<notin> set xs \<or> p_status (hdrs s (p - sizeof_header)) = FREE)
     \<and> (\<forall>y \<in> set xs. y \<noteq> p - sizeof_header \<longrightarrow>
           p_status (hdrs s' y) = p_status (hdrs s y)
           \<and> p_payload (hdrs s' y) = p_payload (hdrs s y)
           \<and> p_end_marker (hdrs s' y) = p_end_marker (hdrs s y))"
proof -
  let ?bsz = "sizeof_header + sz + malloc_padding sz"
  from assms(2,3) have no: "\<not> sz > SIZE_MAX - malloc_padding sz - sizeof_header"
    by (auto simp: m61_malloc_def Let_def split: if_splits)
  note nz = malloc_block_size_nonzero [OF no]
  from no assms(2,3) obtain s1 where
    fs: "find_free_space ?bsz sz f l s = Some (p, s1)" and s': "s' = add_to_statistics sz p s1"
    by (auto simp: m61_malloc_def Let_def split: option.splits if_splits)
  have "\<exists>xs'. wf s1 xs' \<and> set xs \<subseteq> set xs' \<and> p - sizeof_header \<in> set xs'
     \<and> p_status (hdrs s1 (p - sizeof_header)) = ALLOCATED
     \<and> p_payload (hdrs s1 (p - sizeof_header)) = p
     \<and> p_end_marker (hdrs s1 (p - sizeof_header)) = p + sz
     \<and> (p - sizeof_header \<notin> set xs \<or> p_status (hdrs s (p - sizeof_header)) = FREE)
     \<and> (\<forall>y \<in> set xs. y \<noteq> p - sizeof_header \<longrightarrow>
           p_status (hdrs s1 y) = p_status (hdrs s y)
           \<and> p_payload (hdrs s1 y) = p_payload (hdrs s y)
           \<and> p_end_marker (hdrs s1 y) = p_end_marker (hdrs s y))"
  proof (cases "?bsz \<le> buf_size (default_buffer s) - pos (default_buffer s)")
    case True
    let ?x = "buffer (default_buffer s) + pos (default_buffer s)"
    from find_free_space_frontier [OF True, of sz f l] fs
    have p: "p = ?x + sizeof_header" and s1: "s1 = carve ?bsz sz f l s"
      by simp_all
    from p have x: "p - sizeof_header = ?x" by simp
    have xn: "?x \<notin> set xs"
      using tile_bounds [OF wf_parts(2) [OF assms(1)], of ?x] wf_arena(4) [OF assms(1)]
      by auto
    have "\<forall>y \<in> set xs. y \<noteq> ?x \<longrightarrow>
           p_status (hdrs s1 y) = p_status (hdrs s y)
           \<and> p_payload (hdrs s1 y) = p_payload (hdrs s y)
           \<and> p_end_marker (hdrs s1 y) = p_end_marker (hdrs s y)"
      unfolding s1 by (simp add: carve_static)
    with wf_carve [OF assms(1) True nz, of sz f l] xn show ?thesis
      unfolding x unfolding s1 p
      by (intro exI [of _ "?x # xs"]) (auto simp: carve_fields)
  next
    case False
    with fs have "find_freed_block_from (head s) ?bsz sz f l s = Some (p, s1)"
      by (simp add: find_free_space_def find_freed_block_def)
    moreover have "head s = 0 \<or> head s \<in> set xs"
      using wf_parts(4) [OF assms(1)] by (cases xs) auto
    ultimately obtain x where x: "x \<in> set xs" "p_status (hdrs s x) = FREE"
      "?bsz \<le> block_size (hdrs s x)" "p = x + sizeof_header"
      "s1 = split_block x ?bsz (generate_alloc_block x (block_size (hdrs s x)) sz f l s)"
      using scan_result [OF _ wf_parts(1) [OF assms(1)], of "head s" ?bsz sz f l "(p, s1)"]
        assms(3)
      by auto
    from x(4) have px: "p - sizeof_header = x" by simp
    from wf_found [OF assms(1) x(1,2,3) nz x(5)] x(1,2,4) show ?thesis
      unfolding px by auto
  qed
  then obtain xs' where "wf s1 xs'" "set xs \<subseteq> set xs'" "p - sizeof_header \<in> set xs'"
     "p_status (hdrs s1 (p - sizeof_header)) = ALLOCATED"
     "p_payload (hdrs s1 (p - sizeof_header)) = p"
     "p_end_marker (hdrs s1 (p - sizeof_header)) = p + sz"
     "p - sizeof_header \<notin> set xs \<or> p_status (hdrs s (p - sizeof_header)) = FREE"
     "\<forall>y \<in> set xs. y \<noteq> p - sizeof_header \<longrightarrow>
           p_status (hdrs s1 y) = p_status (hdrs s y)
           \<and> p_payload (hdrs s1 y) = p_payload (hdrs s y)
           \<and> p_end_marker (hdrs s1 y) = p_end_marker (hdrs s y)"
    by blast
  then show ?thesis
    unfolding s'
    by (intro exI [of _ xs']) (simp add: add_to_statistics_fields get_payload_size_def)
qed

lemma wf_pwf: "wf s xs \<longleftrightarrow> pwf s xs \<and> tags (hdrs s) True xs"
  by (auto simp: wf_def pwf_def)

lemma pwf_parts:
  assumes "pwf s xs"
  shows "links (hdrs s) 0 xs 0"
    and "tile (hdrs s) (unat (buffer (default_buffer s)) + unat (pos (default_buffer s))) xs
           (unat (buffer (default_buffer s)))"
    and "head s = hd_or xs 0" and "distinct xs" and "0 \<notin> set xs"
    and "0 < unat (buffer (default_buffer s))"
    and "unat (buffer (default_buffer s)) + unat (buf_size (default_buffer s)) < 2 ^ 64"
    and "unat (pos (default_buffer s)) \<le> unat (buf_size (default_buffer s))"
proof -
  from assms show l: "links (hdrs s) 0 xs 0"
    and t: "tile (hdrs s) (unat (buffer (default_buffer s)) + unat (pos (default_buffer s))) xs
           (unat (buffer (default_buffer s)))"
    and "head s = hd_or xs 0"
    and b: "0 < unat (buffer (default_buffer s))"
    and "unat (buffer (default_buffer s)) + unat (buf_size (default_buffer s)) < 2 ^ 64"
    and "unat (pos (default_buffer s)) \<le> unat (buf_size (default_buffer s))"
    by (simp_all add: pwf_def)
  from t show "distinct xs" by (rule tile_distinct)
  from t b show "0 \<notin> set xs" by (rule tile_nonzero)
qed

text \<open>
  Merging two neighbours: the block \<open>lo\<close> takes over the size of the block \<open>hi\<close>
  that lies behind it in memory and before it in the list, and \<open>hi\<close> is unlinked.
\<close>

lemma merge_blocks:
  assumes "pwf s (ys @ hi # lo # zs)"
  shows "\<exists>s1. remove_block hi
            (s\<lparr>hdrs := (hdrs s)(lo := (hdrs s lo)\<lparr>block_size :=
               block_size (hdrs s lo) + block_size (hdrs s hi)\<rparr>)\<rparr>) = Returns s1
     \<and> pwf s1 (ys @ lo # zs)
     \<and> block_size (hdrs s1 lo) = block_size (hdrs s lo) + block_size (hdrs s hi)
     \<and> (\<forall>y. y \<noteq> lo \<longrightarrow> block_size (hdrs s1 y) = block_size (hdrs s y))
     \<and> (\<forall>y. p_status (hdrs s1 y) = p_status (hdrs s y)
            \<and> p_payload (hdrs s1 y) = p_payload (hdrs s y)
            \<and> p_end_marker (hdrs s1 y) = p_end_marker (hdrs s y))
     \<and> bytes s1 = bytes s \<and> gstats s1 = gstats s \<and> default_buffer s1 = default_buffer s"
proof -
  let ?xs = "ys @ hi # lo # zs"
  let ?B = "unat (buffer (default_buffer s))" and ?P = "unat (pos (default_buffer s))"
  let ?h = "hdrs s"
  let ?sz = "block_size (?h lo) + block_size (?h hi)"
  define sm where "sm = s\<lparr>hdrs := ?h(lo := (?h lo)\<lparr>block_size := ?sz\<rparr>)\<rparr>"
  note pt = pwf_parts [OF assms]
  have hm: "hdrs sm = ?h(lo := (?h lo)\<lparr>block_size := ?sz\<rparr>)" "head sm = head s"
    "default_buffer sm = default_buffer s" "bytes sm = bytes s" "gstats sm = gstats s"
    by (simp_all add: sm_def)
  have lm: "links (hdrs sm) 0 ?xs 0"
    using pt(1) by (subst links_cong [of _ _ ?h]) (simp_all add: hm)
  from remove_block_links [OF lm _ pt(4,5)] pt(3) hm(2)
  obtain s1 where r: "remove_block hi sm = Returns s1"
    and l1: "links (hdrs s1) 0 (ys @ lo # zs) 0" and h1: "head s1 = hd_or (ys @ lo # zs) 0"
    by auto
  note fr = remove_block_frame [OF r]
  have st: "block_size (hdrs s1 y) = block_size (hdrs sm y)"
    "p_status (hdrs s1 y) = p_status (hdrs sm y)"
    "p_payload (hdrs s1 y) = p_payload (hdrs sm y)"
    "p_end_marker (hdrs s1 y) = p_end_marker (hdrs sm y)" for y
    using fr(1) unfolding same_static_def by blast+
  let ?M = "if ys = [] then ?B + ?P else unat (last ys)"
  from pt(2) have t: "tile ?h (?B + ?P) ys ?M" "tile ?h ?M (hi # lo # zs) ?B"
    using tile_append [of ?h "?B + ?P" ys "hi # lo # zs" ?B] by simp_all
  from t(2) have th: "0 < unat (block_size (?h hi))" "unat hi + unat (block_size (?h hi)) = ?M"
    "0 < unat (block_size (?h lo))" "unat lo + unat (block_size (?h lo)) = unat hi"
    "tile ?h (unat lo) zs ?B"
    by simp_all
  have "?M \<le> ?B + ?P"
    using tile_bounds [OF pt(2), of "last ys"] by (cases "ys = []") auto
  with pt(7,8) th have "unat (block_size (?h lo)) + unat (block_size (?h hi))
      < 18446744073709551616"
    by simp
  then have us: "unat ?sz = unat (block_size (?h lo)) + unat (block_size (?h hi))"
    by (rule unat_add64)
  from pt(4) have d: "lo \<noteq> hi" "lo \<notin> set ys" "lo \<notin> set zs" by auto
  have bs1: "block_size (hdrs s1 lo) = ?sz"
    "\<And>y. y \<noteq> lo \<Longrightarrow> block_size (hdrs s1 y) = block_size (?h y)"
    by (simp_all add: st hm)
  have t1: "tile (hdrs s1) (?B + ?P) ys ?M"
    using t(1) d by (subst tile_cong [of _ _ ?h]) (auto intro!: bs1(2))
  have t2: "tile (hdrs s1) (unat lo) zs ?B"
    using th(5) d by (subst tile_cong [of _ _ ?h]) (auto intro!: bs1(2))
  have t3: "tile (hdrs s1) ?M (lo # zs) ?B"
    using t2 th us by (simp add: bs1(1))
  from t1 t3 have tl: "tile (hdrs s1) (?B + ?P) (ys @ lo # zs) ?B"
    by (simp only: tile_append)
  have "pwf s1 (ys @ lo # zs)"
    unfolding pwf_def using pt(6,7,8) l1 h1 tl by (simp add: fr hm)
  with r bs1 st fr show ?thesis
    unfolding sm_def [symmetric] by (intro exI [of _ s1]) (simp add: hm)
qed

lemma last_or_last: "ys \<noteq> [] \<Longrightarrow> last_or ys d = last ys"
  by (induction ys arbitrary: d) auto

lemma hd_or_hd: "zs \<noteq> [] \<Longrightarrow> hd_or zs d = hd zs"
  by (cases zs) auto

lemma links_neighbours:
  assumes "links h 0 (ys @ x # zs) 0"
  shows "p_prev (h x) = last_or ys 0" and "p_next (h x) = hd_or zs 0"
    and "ys \<noteq> [] \<Longrightarrow> p_next (h (last ys)) = x"
    and "zs \<noteq> [] \<Longrightarrow> p_prev (h (hd zs)) = x"
proof -
  from assms have l: "links h 0 ys x" "links h (last_or ys 0) (x # zs) 0"
    by (simp_all add: links_append)
  from l(2) show "p_prev (h x) = last_or ys 0" and "p_next (h x) = hd_or zs 0"
    by simp_all
  show "p_next (h (last ys)) = x" if "ys \<noteq> []"
  proof -
    from that obtain ys' w where ys: "ys = ys' @ [w]"
      by (cases ys rule: rev_cases) auto
    with l(1) show ?thesis by (simp add: links_append)
  qed
  show "p_prev (h (hd zs)) = x" if "zs \<noteq> []"
    using that l(2) by (cases zs) auto
qed

lemma tags_strengthen:
  "tags h pf zs \<Longrightarrow> zs = [] \<or> p_status (h (hd zs)) \<noteq> FREE \<Longrightarrow> tags h True zs"
  by (cases zs) auto

lemma tags_snoc_free:
  assumes "tags h True (ys @ [u])" and "p_status (h u) = FREE"
  shows "tags h True ys \<and> ys \<noteq> [] \<and> p_status (h (last ys)) \<noteq> FREE"
proof -
  from assms(1) have a: "tags h True ys"
    and b: "tags h (if ys = [] then True else p_status (h (last ys)) = FREE) [u]"
    using tags_append [of h True ys "[u]"] by simp_all
  from b assms(2) show ?thesis
    using a by (cases "ys = []") auto
qed

text \<open>
  Coalescing after the header of \<open>x\<close> has been rewritten as free: the two attempts
  return, and the heap is again well-formed, except that the head may now be free.
\<close>

lemma coalesce_pwf:
  assumes p: "pwf s (ys @ x # zs)" and fx: "p_status (hdrs s x) = FREE"
    and ty: "tags (hdrs s) True ys" and tz: "tags (hdrs s) False zs"
  shows "\<exists>s3 xs3. coalesce x s = Returns s3 \<and> pwf s3 xs3 \<and> tags (hdrs s3) False xs3
     \<and> set xs3 \<subseteq> set (ys @ x # zs)
     \<and> (\<forall>y. p_status (hdrs s3 y) = p_status (hdrs s y)
            \<and> p_payload (hdrs s3 y) = p_payload (hdrs s y)
            \<and> p_end_marker (hdrs s3 y) = p_end_marker (hdrs s y))
     \<and> (\<forall>y \<in> set (ys @ x # zs). p_status (hdrs s y) \<noteq> FREE \<longrightarrow>
            y \<in> set xs3 \<and> block_size (hdrs s3 y) = block_size (hdrs s y))
     \<and> bytes s3 = bytes s \<and> gstats s3 = gstats s \<and> default_buffer s3 = default_buffer s"
proof -
  let ?h = "hdrs s"
  note pt = pwf_parts [OF p]
  note nb = links_neighbours [OF pt(1)]
  define up where "up = is_block_free (p_prev (?h x)) s"
  have cu: "can_coalesce_up x s = Returns up"
  proof (cases up)
    case True
    then have "last_or ys 0 \<noteq> 0"
      by (simp add: up_def is_block_free_def nb(1))
    then have ne: "ys \<noteq> []" by (cases ys) auto
    from True have ib: "is_block_free (p_prev (?h x)) s" by (simp add: up_def)
    from nb(1,3) ne have "p_next (?h (p_prev (?h x))) = x"
      by (simp add: last_or_last)
    with ib True show ?thesis
      by (simp add: can_coalesce_up_def)
  next
    case False
    then show ?thesis
      by (simp add: can_coalesce_up_def up_def [symmetric])
  qed
  have "\<exists>s1 ys1. (if up then remove_block (p_prev (?h x))
                (s\<lparr>hdrs := ?h(x := (?h x)\<lparr>block_size :=
                   block_size (?h x) + block_size (?h (p_prev (?h x)))\<rparr>)\<rparr>)
              else Returns s) = Returns s1
     \<and> pwf s1 (ys1 @ x # zs) \<and> set ys1 \<subseteq> set ys
     \<and> tags ?h True ys1 \<and> (ys1 = [] \<or> p_status (?h (last ys1)) \<noteq> FREE)
     \<and> (\<forall>y. p_status (hdrs s1 y) = p_status (?h y)
            \<and> p_payload (hdrs s1 y) = p_payload (?h y)
            \<and> p_end_marker (hdrs s1 y) = p_end_marker (?h y))
     \<and> (\<forall>y. y \<noteq> x \<longrightarrow> block_size (hdrs s1 y) = block_size (?h y))
     \<and> (\<forall>y \<in> set ys. p_status (?h y) \<noteq> FREE \<longrightarrow> y \<in> set ys1)
     \<and> bytes s1 = bytes s \<and> gstats s1 = gstats s \<and> default_buffer s1 = default_buffer s"
  proof (cases up)
    case True
    then have u0: "last_or ys 0 \<noteq> 0" and uf: "p_status (?h (last_or ys 0)) = FREE"
      by (simp_all add: up_def is_block_free_def nb(1))
    from u0 have "ys \<noteq> []" by (cases ys) auto
    then obtain ys' u where ys: "ys = ys' @ [u]"
      by (cases ys rule: rev_cases) auto
    with uf have ufree: "p_status (?h u) = FREE" by simp
    from p ys have "pwf s (ys' @ u # x # zs)" by simp
    from merge_blocks [OF this] obtain s1 where
      r: "remove_block u (s\<lparr>hdrs := ?h(x := (?h x)\<lparr>block_size :=
               block_size (?h x) + block_size (?h u)\<rparr>)\<rparr>) = Returns s1"
      and m: "pwf s1 (ys' @ x # zs)"
        "\<forall>y. y \<noteq> x \<longrightarrow> block_size (hdrs s1 y) = block_size (?h y)"
        "\<forall>y. p_status (hdrs s1 y) = p_status (?h y)
            \<and> p_payload (hdrs s1 y) = p_payload (?h y)
            \<and> p_end_marker (hdrs s1 y) = p_end_marker (?h y)"
        "bytes s1 = bytes s" "gstats s1 = gstats s" "default_buffer s1 = default_buffer s"
      by blast
    from tags_snoc_free [of ?h ys' u] ty ys ufree
    have t: "tags ?h True ys'" "ys' \<noteq> []" "p_status (?h (last ys')) \<noteq> FREE"
      by simp_all
    from True r nb(1) ys m t ufree show ?thesis
      by (intro exI [of _ s1] exI [of _ ys']) auto
  next
    case False
    have "ys = [] \<or> p_status (?h (last ys)) \<noteq> FREE"
    proof (cases "ys = []")
      case True
      then show ?thesis by simp
    next
      case ne: False
      from last_in_set [OF ne] pt(5) have "last ys \<noteq> 0"
        by (metis Un_iff set_append)
      with False ne show ?thesis
        by (simp add: up_def is_block_free_def nb(1) last_or_last)
    qed
    with False p ty show ?thesis
      by (intro exI [of _ s] exI [of _ ys]) auto
  qed
  then obtain s1 ys1 where
    r1: "(if up then remove_block (p_prev (?h x))
                (s\<lparr>hdrs := ?h(x := (?h x)\<lparr>block_size :=
                   block_size (?h x) + block_size (?h (p_prev (?h x)))\<rparr>)\<rparr>)
              else Returns s) = Returns s1"
    and p1: "pwf s1 (ys1 @ x # zs)" and sub1: "set ys1 \<subseteq> set ys"
    and ty1: "tags ?h True ys1" "ys1 = [] \<or> p_status (?h (last ys1)) \<noteq> FREE"
    and st1: "\<And>y. p_status (hdrs s1 y) = p_status (?h y)
            \<and> p_payload (hdrs s1 y) = p_payload (?h y)
            \<and> p_end_marker (hdrs s1 y) = p_end_marker (?h y)"
    and bs1: "\<And>y. y \<noteq> x \<Longrightarrow> block_size (hdrs s1 y) = block_size (?h y)"
    and keep1: "\<And>y. y \<in> set ys \<Longrightarrow> p_status (?h y) \<noteq> FREE \<Longrightarrow> y \<in> set ys1"
    and fr1: "bytes s1 = bytes s" "gstats s1 = gstats s" "default_buffer s1 = default_buffer s"
    by blast
  let ?h1 = "hdrs s1"
  note pt1 = pwf_parts [OF p1]
  note nb1 = links_neighbours [OF pt1(1)]
  define down where "down = is_block_free (p_next (?h1 x)) s1"
  have cd: "can_coalesce_down x s1 = Returns down"
  proof (cases down)
    case True
    then have "hd_or zs 0 \<noteq> 0"
      by (simp add: down_def is_block_free_def nb1(2))
    then have ne: "zs \<noteq> []" by (cases zs) auto
    from True have ib: "is_block_free (p_next (?h1 x)) s1" by (simp add: down_def)
    from nb1(2,4) ne have "p_prev (?h1 (p_next (?h1 x))) = x"
      by (simp add: hd_or_hd)
    with ib True show ?thesis
      by (simp add: can_coalesce_down_def)
  next
    case False
    then show ?thesis
      by (simp add: can_coalesce_down_def down_def [symmetric])
  qed
  have ty1': "tags ?h1 False ys1" and tz1: "tags ?h1 False zs"
    using ty1(1) tz tags_weaken [of ?h ys1 False]
    by (simp_all add: tags_cong [of _ ?h1 ?h] st1)
  have fx1: "p_status (?h1 x) = FREE"
    using fx by (simp add: st1)
  have lastfree: "ys1 = [] \<or> p_status (?h1 (last ys1)) \<noteq> FREE"
    using ty1(2) by (simp add: st1)
  have "\<exists>s3 xs3. (if down then remove_block x
                (s1\<lparr>hdrs := ?h1(p_next (?h1 x) := (?h1 (p_next (?h1 x)))
                   \<lparr>block_size := block_size (?h1 (p_next (?h1 x)))
                      + block_size (?h1 x)\<rparr>)\<rparr>)
              else Returns s1) = Returns s3
     \<and> pwf s3 xs3 \<and> tags (hdrs s3) False xs3 \<and> set xs3 \<subseteq> set (ys1 @ x # zs)
     \<and> (\<forall>y. p_status (hdrs s3 y) = p_status (?h1 y)
            \<and> p_payload (hdrs s3 y) = p_payload (?h1 y)
            \<and> p_end_marker (hdrs s3 y) = p_end_marker (?h1 y))
     \<and> (\<forall>y. p_status (?h1 y) \<noteq> FREE \<longrightarrow> block_size (hdrs s3 y) = block_size (?h1 y))
     \<and> (\<forall>y \<in> set (ys1 @ x # zs). p_status (?h1 y) \<noteq> FREE \<longrightarrow> y \<in> set xs3)
     \<and> bytes s3 = bytes s1 \<and> gstats s3 = gstats s1 \<and> default_buffer s3 = default_buffer s1"
  proof (cases down)
    case True
    then have v0: "hd_or zs 0 \<noteq> 0" and vf: "p_status (?h1 (hd_or zs 0)) = FREE"
      by (simp_all add: down_def is_block_free_def nb1(2))
    from v0 obtain v zs' where zs: "zs = v # zs'" by (cases zs) auto
    with vf have vfree: "p_status (?h1 v) = FREE" by simp
    from p1 zs have "pwf s1 (ys1 @ x # v # zs')" by simp
    from merge_blocks [OF this] obtain s3 where
      r: "remove_block x (s1\<lparr>hdrs := ?h1(v := (?h1 v)\<lparr>block_size :=
               block_size (?h1 v) + block_size (?h1 x)\<rparr>)\<rparr>) = Returns s3"
      and m: "pwf s3 (ys1 @ v # zs')"
        "\<forall>y. y \<noteq> v \<longrightarrow> block_size (hdrs s3 y) = block_size (?h1 y)"
        "\<forall>y. p_status (hdrs s3 y) = p_status (?h1 y)
            \<and> p_payload (hdrs s3 y) = p_payload (?h1 y)
            \<and> p_end_marker (hdrs s3 y) = p_end_marker (?h1 y)"
        "bytes s3 = bytes s1" "gstats s3 = gstats s1" "default_buffer s3 = default_buffer s1"
      by blast
    from tz1 zs vfree have tz': "tags ?h1 True zs'" by simp
    have "tags ?h1 False (ys1 @ v # zs')"
      using ty1' tz' vfree lastfree by (auto simp: tags_append)
    then have t3: "tags (hdrs s3) False (ys1 @ v # zs')"
      using m(3) by (simp add: tags_cong [of _ "hdrs s3" ?h1])
    have b3: "block_size (hdrs s3 y) = block_size (?h1 y)" if "p_status (?h1 y) \<noteq> FREE" for y
    proof -
      from that vfree have "y \<noteq> v" by auto
      with m(2) show ?thesis by simp
    qed
    have k3: "y \<in> set (ys1 @ v # zs')"
      if "y \<in> set (ys1 @ x # zs)" "p_status (?h1 y) \<noteq> FREE" for y
      using that fx1 zs by auto
    have rr: "(if down then remove_block x
                (s1\<lparr>hdrs := ?h1(p_next (?h1 x) := (?h1 (p_next (?h1 x)))
                   \<lparr>block_size := block_size (?h1 (p_next (?h1 x)))
                      + block_size (?h1 x)\<rparr>)\<rparr>)
              else Returns s1) = Returns s3"
      using True r nb1(2) zs by simp
    have ss: "set (ys1 @ v # zs') \<subseteq> set (ys1 @ x # zs)"
      using zs by auto
    from rr m(1,3,4,5,6) t3 b3 k3 ss show ?thesis
      by (intro exI [of _ s3] exI [of _ "ys1 @ v # zs'"]) blast
  next
    case False
    have "zs = [] \<or> p_status (?h1 (hd zs)) \<noteq> FREE"
    proof (cases "zs = []")
      case True
      then show ?thesis by simp
    next
      case ne: False
      from hd_in_set [OF ne] pt1(5) have "hd zs \<noteq> 0"
        by (metis Un_iff list.set_intros(2) set_append)
      with False ne show ?thesis
        by (simp add: down_def is_block_free_def nb1(2) hd_or_hd)
    qed
    from tags_strengthen [OF tz1 this] have "tags ?h1 True zs" .
    with ty1' fx1 lastfree have "tags ?h1 False (ys1 @ x # zs)"
      by (auto simp: tags_append)
    with False p1 show ?thesis
      by (intro exI [of _ s1] exI [of _ "ys1 @ x # zs"]) auto
  qed
  then obtain s3 xs3 where
    r3: "(if down then remove_block x
                (s1\<lparr>hdrs := ?h1(p_next (?h1 x) := (?h1 (p_next (?h1 x)))
                   \<lparr>block_size := block_size (?h1 (p_next (?h1 x)))
                      + block_size (?h1 x)\<rparr>)\<rparr>)
              else Returns s1) = Returns s3"
    and p3: "pwf s3 xs3" "tags (hdrs s3) False xs3" and sub3: "set xs3 \<subseteq> set (ys1 @ x # zs)"
    and st3: "\<And>y. p_status (hdrs s3 y) = p_status (?h1 y)
            \<and> p_payload (hdrs s3 y) = p_payload (?h1 y)
            \<and> p_end_marker (hdrs s3 y) = p_end_marker (?h1 y)"
    and bs3: "\<And>y. p_status (?h1 y) \<noteq> FREE \<Longrightarrow> block_size (hdrs s3 y) = block_size (?h1 y)"
    and keep3: "\<And>y. y \<in> set (ys1 @ x # zs) \<Longrightarrow> p_status (?h1 y) \<noteq> FREE \<Longrightarrow> y \<in> set xs3"
    and fr3: "bytes s3 = bytes s1" "gstats s3 = gstats s1" "default_buffer s3 = default_buffer s1"
    by blast
  have c: "coalesce x s = Returns s3"
    using cu r1 cd r3 by (simp add: coalesce_def)
  have keep: "y \<in> set xs3 \<and> block_size (hdrs s3 y) = block_size (?h y)"
    if "y \<in> set (ys @ x # zs)" "p_status (?h y) \<noteq> FREE" for y
  proof -
    from that fx have yx: "y \<noteq> x" by auto
    with that keep1 [of y] have "y \<in> set (ys1 @ x # zs)" by auto
    with keep3 [of y] bs3 [of y] bs1 [of y] that yx show ?thesis
      by (simp add: st1)
  qed
  show ?thesis
    using c p3 sub3 sub1 st3 st1 keep fr3 fr1
    by (intro exI [of _ s3] exI [of _ xs3]) auto
qed

text \<open>The retraction of the frontier restores the condition on the head.\<close>

lemma move_buffer_pos_wf:
  assumes p: "pwf s xs" and t: "tags (hdrs s) False xs"
  shows "\<exists>s' xs'. move_buffer_pos s = Returns s' \<and> wf s' xs' \<and> set xs' \<subseteq> set xs
     \<and> same_static (hdrs s) (hdrs s')
     \<and> (\<forall>y \<in> set xs. p_status (hdrs s y) \<noteq> FREE \<longrightarrow> y \<in> set xs')
     \<and> bytes s' = bytes s \<and> gstats s' = gstats s
     \<and> buffer (default_buffer s') = buffer (default_buffer s)
     \<and> buf_size (default_buffer s') = buf_size (default_buffer s)"
proof (cases xs)
  case Nil
  with p have "move_buffer_pos s = Returns s" "wf s []"
    by (simp_all add: move_buffer_pos_def pwf_def wf_def)
  with Nil show ?thesis
    by (intro exI [of _ s] exI [of _ "[]"]) simp
next
  case (Cons x xs')
  note pt = pwf_parts [OF p]
  from pt(3,5) Cons have hx: "head s = x" "x \<noteq> 0" by auto
  show ?thesis
  proof (cases "p_status (hdrs s x) = ALLOCATED")
    case True
    with hx have "move_buffer_pos s = Returns s"
      by (simp add: move_buffer_pos_def)
    moreover from t Cons True have "tags (hdrs s) True xs" by simp
    with p have "wf s xs" by (simp add: wf_pwf)
    ultimately show ?thesis
      by (intro exI [of _ s] exI [of _ xs]) simp
  next
    case False
    with t Cons have fx: "p_status (hdrs s x) = FREE" and t': "tags (hdrs s) True xs'"
      by auto
    let ?B = "unat (buffer (default_buffer s))" and ?P = "unat (pos (default_buffer s))"
    let ?sx = "block_size (hdrs s x)"
    define s0 where "s0 = s\<lparr>default_buffer := (default_buffer s)\<lparr>pos :=
               pos (default_buffer s) - ?sx\<rparr>\<rparr>"
    have s0: "hdrs s0 = hdrs s" "head s0 = head s" "bytes s0 = bytes s" "gstats s0 = gstats s"
      "buffer (default_buffer s0) = buffer (default_buffer s)"
      "buf_size (default_buffer s0) = buf_size (default_buffer s)"
      "pos (default_buffer s0) = pos (default_buffer s) - ?sx"
      by (simp_all add: s0_def)
    from pt(2) Cons have tx: "unat x + unat ?sx = ?B + ?P" "tile (hdrs s) (unat x) xs' ?B"
      by simp_all
    from tile_le [OF tx(2)] tx(1) have le: "unat ?sx \<le> ?P" by simp
    then have "?sx \<le> pos (default_buffer s)"
      by (simp add: word_le_nat_alt)
    then have up: "unat (pos (default_buffer s) - ?sx) = ?P - unat ?sx"
      by (rule unat_sub)
    from pt(1,3,4,5) Cons
    have "\<exists>s'. remove_block x s0 = Returns s' \<and> links (hdrs s') 0 ([] @ xs') 0
           \<and> head s' = hd_or ([] @ xs') 0"
      by (intro remove_block_links) (simp_all add: s0)
    then obtain s' where r: "remove_block x s0 = Returns s'"
      and l: "links (hdrs s') 0 xs' 0" and h: "head s' = hd_or xs' 0"
      by auto
    note fr = remove_block_frame [OF r]
    have m: "move_buffer_pos s = Returns s'"
      using hx False r by (simp add: move_buffer_pos_def s0_def)
    have w: "wf s' xs'"
    proof (rule wfI)
      show "0 < unat (buffer (default_buffer s'))"
        and "unat (buffer (default_buffer s')) + unat (buf_size (default_buffer s')) < 2 ^ 64"
        using pt(6,7) by (simp_all add: fr s0)
      show "unat (pos (default_buffer s')) \<le> unat (buf_size (default_buffer s'))"
        using pt(8) up by (simp add: fr s0)
      show "links (hdrs s') 0 xs' 0" by (rule l)
      have "?B + (?P - unat ?sx) = unat x"
        using tx(1) le by simp
      with tx(2) show "tile (hdrs s')
          (unat (buffer (default_buffer s')) + unat (pos (default_buffer s'))) xs'
          (unat (buffer (default_buffer s')))"
        using same_static_tile [OF fr(1)] by (simp add: fr s0 up)
      show "tags (hdrs s') True xs'"
        using t' same_static_tags [OF fr(1)] by (simp add: s0)
      show "head s' = hd_or xs' 0" by (rule h)
    qed
    from m w fr s0 Cons fx show ?thesis
      by (intro exI [of _ s'] exI [of _ xs']) auto
  qed
qed

lemma m61_free_freeable:
  assumes "freeable s x"
  shows "m61_free (x + sizeof_header) f l s =
     (case coalesce x (generate_free_block x (block_size (hdrs s x)) f l
                        (remove_from_statistics (get_payload_size x s) s)) of
        Aborts d \<Rightarrow> Some (Aborts d)
      | Returns s3 \<Rightarrow> Some (move_buffer_pos s3))"
proof -
  have bs: "block_size (hdrs (remove_from_statistics n s) q) = block_size (hdrs s q)" for n q
    by (simp add: remove_from_statistics_def Let_def)
  from assms have "x + sizeof_header \<noteq> 0"
    "\<not> x + sizeof_header < heap_min (gstats s)" "\<not> x + sizeof_header > heap_max (gstats s)"
    "is_header_valid x (x + sizeof_header) s" "p_status (hdrs s x) = ALLOCATED"
    "is_end_marker_valid (p_end_marker (hdrs s x)) s"
    by (simp_all add: freeable_def not_less)
  then show ?thesis
    by (simp add: m61_free_def Let_def bs)
qed

lemma m61_free_returns_freeable:
  assumes "m61_free p f l s = Some (Returns s')" and "p \<noteq> 0"
  shows "freeable s (p - sizeof_header)"
proof -
  from assms obtain s2 s3 where
    "\<not> p < heap_min (gstats s)" "\<not> p > heap_max (gstats s)"
    "is_header_valid (p - sizeof_header) p s"
    "p_status (hdrs s (p - sizeof_header)) = ALLOCATED"
    "is_end_marker_valid (p_end_marker (hdrs s (p - sizeof_header))) s"
    by (rule m61_free_returns)
  with assms(2) show ?thesis
    by (simp add: freeable_def not_less)
qed

text \<open>
  Freeing a listed block of a well-formed heap: the call returns, the heap stays
  well-formed with a sublist of the blocks, the header of the freed block is tagged free,
  no other header changes its status or its payload bounds, and every other block that
  is not free stays in the list with its size.
\<close>

lemma wf_free:
  assumes w: "wf s xs" and x: "x \<in> set xs" and fx: "freeable s x"
  shows "\<exists>s' xs'. m61_free (x + sizeof_header) f l s = Some (Returns s') \<and> wf s' xs'
     \<and> set xs' \<subseteq> set xs
     \<and> p_status (hdrs s' x) = FREE
     \<and> (\<forall>y. y \<noteq> x \<longrightarrow> p_status (hdrs s' y) = p_status (hdrs s y)
            \<and> p_payload (hdrs s' y) = p_payload (hdrs s y)
            \<and> p_end_marker (hdrs s' y) = p_end_marker (hdrs s y))
     \<and> (\<forall>y \<in> set xs. y \<noteq> x \<longrightarrow> p_status (hdrs s y) \<noteq> FREE \<longrightarrow>
            y \<in> set xs' \<and> block_size (hdrs s' y) = block_size (hdrs s y))
     \<and> bytes s' = bytes s
     \<and> gstats s' = gstats (remove_from_statistics (get_payload_size x s) s)
     \<and> buffer (default_buffer s') = buffer (default_buffer s)
     \<and> buf_size (default_buffer s') = buf_size (default_buffer s)"
proof -
  let ?h = "hdrs s"
  define s2 where "s2 = generate_free_block x (block_size (?h x)) f l
                        (remove_from_statistics (get_payload_size x s) s)"
  have h2: "hdrs s2 = ?h(x := (?h x)\<lparr>block_size := block_size (?h x),
          p_payload := x + sizeof_header, p_file := f, line := l, p_status := FREE,
          p_end_marker := 0\<rparr>)"
    by (simp add: s2_def generate_free_block_hdrs remove_from_statistics_def Let_def)
  have f2: "head s2 = head s" "default_buffer s2 = default_buffer s" "bytes s2 = bytes s"
    "gstats s2 = gstats (remove_from_statistics (get_payload_size x s) s)"
    by (simp_all add: s2_def generate_free_block_frame remove_from_statistics_def Let_def)
  from fx have ax: "p_status (?h x) = ALLOCATED" by (simp add: freeable_def)
  from x obtain ys zs where xs: "xs = ys @ x # zs"
    by (auto dest: split_list)
  note pt = wf_parts [OF w] and ar = wf_arena [OF w]
  have st2: "p_status (hdrs s2 x) = FREE"
    "\<And>y. y \<noteq> x \<Longrightarrow> hdrs s2 y = ?h y"
    "\<And>y. block_size (hdrs s2 y) = block_size (?h y)"
    "\<And>y. p_next (hdrs s2 y) = p_next (?h y)" "\<And>y. p_prev (hdrs s2 y) = p_prev (?h y)"
    by (simp_all add: h2)
  have l2: "links (hdrs s2) 0 xs 0"
    using pt(1) by (subst links_cong [of _ _ ?h]) (simp_all add: st2)
  have tl2: "tile (hdrs s2) (unat (buffer (default_buffer s)) + unat (pos (default_buffer s)))
      xs (unat (buffer (default_buffer s)))"
    using pt(2) by (subst tile_cong [of _ _ ?h]) (simp_all add: st2)
  have "pwf s2 xs"
    unfolding pwf_def f2 using ar(1,2,3) l2 tl2 pt(4) by blast
  then have p2: "pwf s2 (ys @ x # zs)"
    by (simp only: xs)
  from pt(3) xs ax have t: "tags ?h True ys" "tags ?h False zs"
    using tags_append [of ?h True ys "x # zs"] by simp_all
  from pt(5) xs have "x \<notin> set ys" "x \<notin> set zs" by auto
  with t have t2: "tags (hdrs s2) True ys" "tags (hdrs s2) False zs"
    by (simp_all add: h2 tags_upd_other)
  from coalesce_pwf [OF p2 st2(1) t2] obtain s3 xs3 where
    c: "coalesce x s2 = Returns s3" and p3: "pwf s3 xs3" "tags (hdrs s3) False xs3"
    and sub3: "set xs3 \<subseteq> set (ys @ x # zs)"
    and st3: "\<And>y. p_status (hdrs s3 y) = p_status (hdrs s2 y)
            \<and> p_payload (hdrs s3 y) = p_payload (hdrs s2 y)
            \<and> p_end_marker (hdrs s3 y) = p_end_marker (hdrs s2 y)"
    and keep3: "\<And>y. y \<in> set (ys @ x # zs) \<Longrightarrow> p_status (hdrs s2 y) \<noteq> FREE \<Longrightarrow>
            y \<in> set xs3 \<and> block_size (hdrs s3 y) = block_size (hdrs s2 y)"
    and fr3: "bytes s3 = bytes s2" "gstats s3 = gstats s2" "default_buffer s3 = default_buffer s2"
    by blast
  from move_buffer_pos_wf [OF p3] obtain s' xs' where
    m: "move_buffer_pos s3 = Returns s'" and w': "wf s' xs'" and sub': "set xs' \<subseteq> set xs3"
    and st': "same_static (hdrs s3) (hdrs s')"
    and keep': "\<And>y. y \<in> set xs3 \<Longrightarrow> p_status (hdrs s3 y) \<noteq> FREE \<Longrightarrow> y \<in> set xs'"
    and fr': "bytes s' = bytes s3" "gstats s' = gstats s3"
      "buffer (default_buffer s') = buffer (default_buffer s3)"
      "buf_size (default_buffer s') = buf_size (default_buffer s3)"
    by blast
  have st'': "block_size (hdrs s' y) = block_size (hdrs s3 y)"
    "p_status (hdrs s' y) = p_status (hdrs s3 y)"
    "p_payload (hdrs s' y) = p_payload (hdrs s3 y)"
    "p_end_marker (hdrs s' y) = p_end_marker (hdrs s3 y)" for y
    using st' unfolding same_static_def by blast+
  have r: "m61_free (x + sizeof_header) f l s = Some (Returns s')"
    using c m by (simp add: m61_free_freeable [OF fx] s2_def [symmetric])
  have a: "p_status (hdrs s' x) = FREE"
    by (simp add: st'' st3 st2)
  have b: "p_status (hdrs s' y) = p_status (?h y) \<and> p_payload (hdrs s' y) = p_payload (?h y)
            \<and> p_end_marker (hdrs s' y) = p_end_marker (?h y)" if "y \<noteq> x" for y
    using that by (simp add: st'' st3 st2)
  have k: "y \<in> set xs' \<and> block_size (hdrs s' y) = block_size (?h y)"
    if "y \<in> set xs" "y \<noteq> x" "p_status (?h y) \<noteq> FREE" for y
  proof -
    from that have "p_status (hdrs s2 y) \<noteq> FREE" by (simp add: st2)
    with keep3 [of y] that xs have k3: "y \<in> set xs3" "block_size (hdrs s3 y) = block_size (?h y)"
      by (simp_all add: st2)
    from that have "p_status (hdrs s3 y) \<noteq> FREE" by (simp add: st3 st2)
    with keep' [OF k3(1)] k3 show ?thesis by (simp add: st'')
  qed
  from sub3 sub' xs have sub: "set xs' \<subseteq> set xs" by auto
  have g: "bytes s' = bytes s"
    "gstats s' = gstats (remove_from_statistics (get_payload_size x s) s)"
    "buffer (default_buffer s') = buffer (default_buffer s)"
    "buf_size (default_buffer s') = buf_size (default_buffer s)"
    by (simp_all add: fr' fr3 f2)
  show ?thesis
  proof (intro exI [of _ s'] exI [of _ xs'] conjI)
    show "m61_free (x + sizeof_header) f l s = Some (Returns s')" by (rule r)
    show "wf s' xs'" by (rule w')
    show "set xs' \<subseteq> set xs" by (rule sub)
    show "p_status (hdrs s' x) = FREE" by (rule a)
    show "\<forall>y. y \<noteq> x \<longrightarrow> p_status (hdrs s' y) = p_status (hdrs s y)
            \<and> p_payload (hdrs s' y) = p_payload (hdrs s y)
            \<and> p_end_marker (hdrs s' y) = p_end_marker (hdrs s y)"
      using b by blast
    show "\<forall>y \<in> set xs. y \<noteq> x \<longrightarrow> p_status (hdrs s y) \<noteq> FREE \<longrightarrow>
            y \<in> set xs' \<and> block_size (hdrs s' y) = block_size (hdrs s y)"
      using k by blast
  qed (rule g)+
qed

lemma m61_malloc_success_gstats:
  assumes "m61_malloc sz f l s = Some (p, s')" and "p \<noteq> 0"
  shows "ntotal (gstats s') = ntotal (gstats s) + 1"
    and "nactive (gstats s') = nactive (gstats s) + 1"
    and "total_size (gstats s') = total_size (gstats s) + sz"
    and "active_size (gstats s') = active_size (gstats s) + sz"
proof -
  let ?bsz = "sizeof_header + sz + malloc_padding sz"
  from assms have no: "\<not> sz > SIZE_MAX - malloc_padding sz - sizeof_header"
    by (auto simp: m61_malloc_def Let_def split: if_splits)
  with assms obtain s1 where
    fs: "find_free_space ?bsz sz f l s = Some (p, s1)" and s': "s' = add_to_statistics sz p s1"
    by (auto simp: m61_malloc_def Let_def split: option.splits if_splits)
  note g = find_free_space_gstats [OF fs]
  show "ntotal (gstats s') = ntotal (gstats s) + 1"
    and "nactive (gstats s') = nactive (gstats s) + 1"
    and "total_size (gstats s') = total_size (gstats s) + sz"
    and "active_size (gstats s') = active_size (gstats s) + sz"
    by (simp_all add: s' add_to_statistics_fields g)
qed

lemma remove_from_statistics_fields:
  "ntotal (gstats (remove_from_statistics n s)) = ntotal (gstats s)"
  "nactive (gstats (remove_from_statistics n s)) = nactive (gstats s) - 1"
  "total_size (gstats (remove_from_statistics n s)) = total_size (gstats s)"
  "active_size (gstats (remove_from_statistics n s)) = active_size (gstats s) - n"
  "heap_min (gstats (remove_from_statistics n s)) = heap_min (gstats s)"
  "heap_max (gstats (remove_from_statistics n s)) = heap_max (gstats s)"
  by (simp_all add: remove_from_statistics_def Let_def)

lemma malloc_step_invariant:
  assumes t: "tracked s h" and c: "conserved s h"
    and m: "m61_malloc sz f l s = Some (p, s')" and p: "p \<noteq> 0"
  shows "tracked s' (h\<lparr>live := (live h)(p \<mapsto> sz)\<rparr>)"
    and "conserved s' (h\<lparr>live := (live h)(p \<mapsto> sz)\<rparr>)"
proof -
  from t obtain xs where w: "wf s xs"
    and lv: "\<And>q n. live h q = Some n \<Longrightarrow> q \<noteq> 0 \<and> q - sizeof_header \<in> set xs
              \<and> p_status (hdrs s (q - sizeof_header)) = ALLOCATED
              \<and> get_payload_size (q - sizeof_header) s = n"
    unfolding tracked_def by blast
  from wf_malloc [OF w m p] obtain xs' where
    w': "wf s' xs'" and sub: "set xs \<subseteq> set xs'" and px: "p - sizeof_header \<in> set xs'"
    and pa: "p_status (hdrs s' (p - sizeof_header)) = ALLOCATED"
    and ps: "get_payload_size (p - sizeof_header) s' = sz"
    and st: "\<And>y. y \<in> set xs \<Longrightarrow> y \<noteq> p - sizeof_header \<Longrightarrow>
           p_status (hdrs s' y) = p_status (hdrs s y)
           \<and> p_payload (hdrs s' y) = p_payload (hdrs s y)
           \<and> p_end_marker (hdrs s' y) = p_end_marker (hdrs s y)"
    by blast
  have "q \<noteq> 0 \<and> q - sizeof_header \<in> set xs'
              \<and> p_status (hdrs s' (q - sizeof_header)) = ALLOCATED
              \<and> get_payload_size (q - sizeof_header) s' = n"
    if "((live h)(p \<mapsto> sz)) q = Some n" for q n
  proof (cases "q = p")
    case True
    with that p px pa ps show ?thesis by simp
  next
    case False
    with that have l: "live h q = Some n" by simp
    from False have "q - sizeof_header \<noteq> p - sizeof_header" by simp
    with lv [OF l] st [of "q - sizeof_header"] sub show ?thesis
      by (auto simp: get_payload_size_def)
  qed
  with w' show "tracked s' (h\<lparr>live := (live h)(p \<mapsto> sz)\<rparr>)"
    unfolding tracked_def by (intro exI [of _ xs']) simp
  from c m61_malloc_success_gstats [OF m p]
  show "conserved s' (h\<lparr>live := (live h)(p \<mapsto> sz)\<rparr>)"
    by (simp add: conserved_def)
qed

lemma free_step_invariant:
  assumes t: "tracked s h" and c: "conserved s h"
    and lp: "live h p = Some sz" and m: "m61_free p f l s = Some (Returns s')"
  shows "tracked s' (h\<lparr>live := (live h)(p := None), nfreed := nfreed h + 1,
                         freed_size := freed_size h + sz\<rparr>)"
    and "conserved s' (h\<lparr>live := (live h)(p := None), nfreed := nfreed h + 1,
                         freed_size := freed_size h + sz\<rparr>)"
proof -
  let ?x = "p - sizeof_header"
  from t obtain xs where w: "wf s xs"
    and lv: "\<And>q n. live h q = Some n \<Longrightarrow> q \<noteq> 0 \<and> q - sizeof_header \<in> set xs
              \<and> p_status (hdrs s (q - sizeof_header)) = ALLOCATED
              \<and> get_payload_size (q - sizeof_header) s = n"
    unfolding tracked_def by blast
  from lv [OF lp] have p0: "p \<noteq> 0" and x: "?x \<in> set xs"
    and gs: "get_payload_size ?x s = sz"
    by simp_all
  have xp: "?x + sizeof_header = p" by simp
  note fx = m61_free_returns_freeable [OF m p0]
  from wf_free [OF w x fx, of f l] m obtain xs' where
    w': "wf s' xs'"
    and st: "\<And>y. y \<noteq> ?x \<Longrightarrow> p_status (hdrs s' y) = p_status (hdrs s y)
            \<and> p_payload (hdrs s' y) = p_payload (hdrs s y)
            \<and> p_end_marker (hdrs s' y) = p_end_marker (hdrs s y)"
    and keep: "\<And>y. y \<in> set xs \<Longrightarrow> y \<noteq> ?x \<Longrightarrow> p_status (hdrs s y) \<noteq> FREE \<Longrightarrow>
            y \<in> set xs'"
    and g: "gstats s' = gstats (remove_from_statistics (get_payload_size ?x s) s)"
    unfolding xp by auto
  have "q \<noteq> 0 \<and> q - sizeof_header \<in> set xs'
              \<and> p_status (hdrs s' (q - sizeof_header)) = ALLOCATED
              \<and> get_payload_size (q - sizeof_header) s' = n"
    if "((live h)(p := None)) q = Some n" for q n
  proof -
    from that have qp: "q \<noteq> p" and l: "live h q = Some n"
      by (auto split: if_splits)
    from qp have ne: "q - sizeof_header \<noteq> ?x" by simp
    from lv [OF l] st [OF ne] keep [of "q - sizeof_header"] ne show ?thesis
      by (auto simp: get_payload_size_def)
  qed
  with w' show "tracked s' (h\<lparr>live := (live h)(p := None), nfreed := nfreed h + 1,
                         freed_size := freed_size h + sz\<rparr>)"
    unfolding tracked_def by (intro exI [of _ xs']) simp
  from c show "conserved s' (h\<lparr>live := (live h)(p := None), nfreed := nfreed h + 1,
                         freed_size := freed_size h + sz\<rparr>)"
    by (simp add: conserved_def g gs remove_from_statistics_fields)
qed

lemma run_invariant:
  assumes "run cs (s, h) = Some (s', h')" and "tracked s h" and "conserved s h"
  shows "tracked s' h' \<and> conserved s' h'"
  using assms
proof (induction cs arbitrary: s h)
  case Nil
  then show ?case by simp
next
  case (Cons c cs)
  show ?case
  proof (cases c)
    case (Malloc sz f l)
    with Cons.prems(1) obtain p s1 where m: "m61_malloc sz f l s = Some (p, s1)" and p: "p \<noteq> 0"
      and r: "run cs (s1, h\<lparr>live := (live h)(p \<mapsto> sz)\<rparr>) = Some (s', h')"
      by (auto split: option.splits if_splits)
    from Cons.IH [OF r malloc_step_invariant [OF Cons.prems(2,3) m p]] show ?thesis .
  next
    case (Free p f l)
    with Cons.prems(1) obtain sz s1 where lp: "live h p = Some sz"
      and m: "m61_free p f l s = Some (Returns s1)"
      and r: "run cs (s1, h\<lparr>live := (live h)(p := None), nfreed := nfreed h + 1,
                         freed_size := freed_size h + sz\<rparr>) = Some (s', h')"
      by (auto split: option.splits outcome.splits)
    from Cons.IH [OF r free_step_invariant [OF Cons.prems(2,3) lp m]] show ?thesis .
  qed
qed

lemma run_append:
  "run (cs @ ds) sh = (case run cs sh of None \<Rightarrow> None | Some sh' \<Rightarrow> run ds sh')"
proof (induction cs arbitrary: sh)
  case Nil
  then show ?case by simp
next
  case (Cons c cs)
  obtain s h where sh: "sh = (s, h)" by (cases sh)
  show ?case
    unfolding sh using Cons.IH
    by (cases c) (auto split: option.splits outcome.splits)
qed

lemma wf_init:
  assumes "0 < unat buf" and "unat buf + 8388608 < (2 :: nat) ^ 64"
  shows "wf (init_state buf) []"
  using assms by (simp add: wf_def init_state_def)

text \<open>
  Claim C6 (statistics conservation). Start from the initial state of an arena and run
  any sequence of allocate and free calls in which every allocate returns a pointer and
  every free is of a pointer that is live and returns. Then after every prefix of the
  sequence the total allocation count equals the active count plus the number of frees
  performed, and the total allocated bytes equal the active bytes plus the bytes freed
  so far, where the bytes freed are the sizes requested by the matching allocate calls;
  moreover the header of every live pointer still gives the requested size, which is
  what the next free of it subtracts.
\<close>

theorem statistics_conservation:
  assumes "buf \<noteq> 0" and "unat buf + 8388608 < (2 :: nat) ^ 64"
    and "run cs (init_state buf, no_history) = Some (s, h)"
  shows "\<forall>n \<le> length cs. \<exists>s' h'.
           run (take n cs) (init_state buf, no_history) = Some (s', h')
           \<and> ntotal (gstats s') = nactive (gstats s') + nfreed h'
           \<and> total_size (gstats s') = active_size (gstats s') + freed_size h'
           \<and> (\<forall>p sz. live h' p = Some sz \<longrightarrow> get_payload_size (p - sizeof_header) s' = sz)"
proof (intro allI impI)
  fix n assume "n \<le> length cs"
  let ?i = "(init_state buf, no_history)"
  from assms(1) have b: "0 < unat buf" by (simp add: unat_gt_0)
  have t0: "tracked (init_state buf) no_history"
    unfolding tracked_def using wf_init [OF b assms(2)]
    by (intro exI [of _ "[]"]) (simp add: no_history_def)
  have c0: "conserved (init_state buf) no_history"
    by (simp add: conserved_def init_state_def no_history_def)
  from assms(3) have "run (take n cs @ drop n cs) ?i = Some (s, h)" by simp
  then obtain s' h' where r: "run (take n cs) ?i = Some (s', h')"
    unfolding run_append by (auto split: option.splits)
  from run_invariant [OF r t0 c0] have "tracked s' h'" "conserved s' h'" by simp_all
  with r show "\<exists>s' h'. run (take n cs) ?i = Some (s', h')
           \<and> ntotal (gstats s') = nactive (gstats s') + nfreed h'
           \<and> total_size (gstats s') = active_size (gstats s') + freed_size h'
           \<and> (\<forall>p sz. live h' p = Some sz \<longrightarrow> get_payload_size (p - sizeof_header) s' = sz)"
    unfolding tracked_def conserved_def by (intro exI [of _ s'] exI [of _ h']) blast
qed

theorem statistics_conservation_witness:
  "(0x10000 :: addr) \<noteq> 0 \<and> unat (0x10000 :: addr) + 8388608 < (2 :: nat) ^ 64
   \<and> (\<exists>s h. run [Malloc 100 ''test.cc'' 1, Malloc 10 ''test.cc'' 2,
                  Free 0x10040 ''test.cc'' 3] (init_state 0x10000, no_history) = Some (s, h)
          \<and> ntotal (gstats s) = 2 \<and> nactive (gstats s) = 1 \<and> nfreed h = 1
          \<and> total_size (gstats s) = 110 \<and> active_size (gstats s) = 10 \<and> freed_size h = 100
          \<and> ntotal (gstats s) = nactive (gstats s) + nfreed h
          \<and> total_size (gstats s) = active_size (gstats s) + freed_size h)"
proof -
  let ?cs = "[Malloc 100 ''test.cc'' 1, Malloc 10 ''test.cc'' 2, Free 0x10040 ''test.cc'' 3]"
  let ?r = "run ?cs (init_state 0x10000, no_history)"
  have "case ?r of None \<Rightarrow> False
    | Some (s, h) \<Rightarrow> ntotal (gstats s) = 2 \<and> nactive (gstats s) = 1 \<and> nfreed h = 1
          \<and> total_size (gstats s) = 110 \<and> active_size (gstats s) = 10 \<and> freed_size h = 100"
    by code_simp
  then obtain s h where r: "?r = Some (s, h)"
    and v: "ntotal (gstats s) = 2" "nactive (gstats s) = 1" "nfreed h = 1"
      "total_size (gstats s) = 110" "active_size (gstats s) = 10" "freed_size h = 100"
    by (auto split: option.splits)
  have b: "(0x10000 :: addr) \<noteq> 0" "unat (0x10000 :: addr) + 8388608 < (2 :: nat) ^ 64"
    by simp_all
  have t: "take 3 ?cs = ?cs" by simp
  from statistics_conservation [OF b r] have
    "\<exists>s' h'. run (take 3 ?cs) (init_state 0x10000, no_history) = Some (s', h')
           \<and> ntotal (gstats s') = nactive (gstats s') + nfreed h'
           \<and> total_size (gstats s') = active_size (gstats s') + freed_size h'
           \<and> (\<forall>p sz. live h' p = Some sz \<longrightarrow> get_payload_size (p - sizeof_header) s' = sz)"
    by (elim allE [of _ 3] impE) simp_all
  then have "ntotal (gstats s) = nactive (gstats s) + nfreed h
           \<and> total_size (gstats s) = active_size (gstats s) + freed_size h"
    unfolding t r by blast
  with b r v show ?thesis by simp
qed

lemma tile_bounds_top:
  "tile h T xs B \<Longrightarrow> x \<in> set xs \<Longrightarrow> B \<le> unat x \<and> unat x + unat (block_size (h x)) \<le> T"
proof (induction xs arbitrary: T)
  case Nil
  then show ?case by simp
next
  case (Cons y ys)
  from Cons.prems(1) have t: "tile h (unat y) ys B"
    and e: "unat y + unat (block_size (h y)) = T" by simp_all
  show ?case
  proof (cases "x = y")
    case True
    with tile_le [OF t] e show ?thesis by simp
  next
    case False
    with Cons.prems(2) have "x \<in> set ys" by simp
    from Cons.IH [OF t this] e show ?thesis by simp
  qed
qed

text \<open>
  A gap of free blocks in a tiled list: if the list ends at \<open>D\<close>, the address \<open>A\<close>
  below \<open>D\<close> is a block boundary, and every listed block at or above \<open>A\<close> is free,
  then the first block of the list starts at \<open>A\<close> and fills the gap.
\<close>

lemma tile_free_gap:
  assumes t: "tile h D vs B" and g: "tags h pf vs"
    and AD: "A < D" and BA: "B \<le> A"
    and bd: "A = B \<or> (\<exists>e \<in> set vs. unat e + unat (block_size (h e)) = A)"
    and fr: "\<And>v. v \<in> set vs \<Longrightarrow> A \<le> unat v \<Longrightarrow> p_status (h v) = FREE"
  shows "\<exists>v ws. vs = v # ws \<and> unat v = A \<and> unat (block_size (h v)) = D - A
           \<and> (\<forall>w \<in> set ws. unat w < A)"
proof -
  from t AD BA have "vs \<noteq> []" by (cases vs) auto
  then obtain v ws where vs: "vs = v # ws" by (cases vs) auto
  from t vs have sv: "0 < unat (block_size (h v))"
    and ev: "unat v + unat (block_size (h v)) = D"
    and tw: "tile h (unat v) ws B" by simp_all
  have lo: "A \<le> unat v"
  proof (rule ccontr)
    assume n: "\<not> A \<le> unat v"
    from tile_le [OF tw] n have "A \<noteq> B" by simp
    with bd obtain e where e: "e \<in> set vs" "unat e + unat (block_size (h e)) = A" by blast
    from e ev AD have "e \<noteq> v" by auto
    with e vs have "e \<in> set ws" by simp
    from tile_bounds_top [OF tw this] e n show False by simp
  qed
  from fr [of v] lo vs have fv: "p_status (h v) = FREE" by simp
  have hi: "unat v \<le> A"
  proof (rule ccontr)
    assume n: "\<not> unat v \<le> A"
    from tw n BA have "ws \<noteq> []" by (cases ws) auto
    then obtain w ws' where ws: "ws = w # ws'" by (cases ws) auto
    from tw ws have ew: "unat w + unat (block_size (h w)) = unat v"
      and sw: "0 < unat (block_size (h w))"
      and tw': "tile h (unat w) ws' B" by simp_all
    from g vs ws fv have "p_status (h w) = ALLOCATED" by simp
    with fr [of w] vs ws have wA: "unat w < A" by (cases "A \<le> unat w") simp_all
    from tile_le [OF tw'] wA have "A \<noteq> B" by simp
    with bd obtain e where e: "e \<in> set vs" "unat e + unat (block_size (h e)) = A" by blast
    from e ev AD have "e \<noteq> v" by auto
    moreover from e ew n have "e \<noteq> w" by auto
    ultimately have "e \<in> set ws'" using e vs ws by simp
    from tile_bounds_top [OF tw' this] e wA show False by simp
  qed
  from lo hi have va: "unat v = A" by simp
  with ev have "unat (block_size (h v)) = D - A" by simp
  moreover from tile_bounds [OF tw] va have "\<forall>w \<in> set ws. unat w < A" by simp
  ultimately show ?thesis using vs va by simp
qed

lemma freeable_frame:
  assumes "freeable s y"
    and "p_status (hdrs s' y) = p_status (hdrs s y)"
    and "p_payload (hdrs s' y) = p_payload (hdrs s y)"
    and "p_end_marker (hdrs s' y) = p_end_marker (hdrs s y)"
    and "bytes s' = bytes s"
    and "heap_min (gstats s') = heap_min (gstats s)"
    and "heap_max (gstats s') = heap_max (gstats s)"
  shows "freeable s' y"
  using assms
  by (auto simp: freeable_def is_header_valid_def is_end_marker_valid_def split: if_splits)

text \<open>
  Freeing several listed blocks of a well-formed heap, in any order: all the calls
  return, the heap stays well-formed with a sublist of the blocks, the freed headers are
  tagged free, and every other block that was not free keeps its place in the list, its
  tag and its size.
\<close>

lemma free_many:
  assumes "wf s xs" and "set X \<subseteq> set xs" and "distinct X"
    and "\<forall>x \<in> set X. freeable s x"
  shows "\<exists>s' xs'. free_all (map (\<lambda>x. x + sizeof_header) X) f l s = Some (Returns s')
     \<and> wf s' xs' \<and> set xs' \<subseteq> set xs
     \<and> (\<forall>x \<in> set X. p_status (hdrs s' x) = FREE)
     \<and> (\<forall>y. y \<notin> set X \<longrightarrow> p_status (hdrs s' y) = p_status (hdrs s y))
     \<and> (\<forall>y \<in> set xs. y \<notin> set X \<longrightarrow> p_status (hdrs s y) \<noteq> FREE \<longrightarrow>
            y \<in> set xs' \<and> block_size (hdrs s' y) = block_size (hdrs s y))
     \<and> buffer (default_buffer s') = buffer (default_buffer s)"
  using assms
proof (induction X arbitrary: s xs)
  case Nil
  then show ?case by (intro exI [of _ s] exI [of _ xs]) simp
next
  case (Cons x X)
  from Cons.prems have w: "wf s xs" and x: "x \<in> set xs" and fx: "freeable s x"
    and X: "set X \<subseteq> set xs" and xX: "x \<notin> set X" and dX: "distinct X"
    and fX: "\<And>y. y \<in> set X \<Longrightarrow> freeable s y"
    by simp_all
  from wf_free [OF w x fx, of f l] obtain s1 xs1 where
    m: "m61_free (x + sizeof_header) f l s = Some (Returns s1)" and w1: "wf s1 xs1"
    and sub1: "set xs1 \<subseteq> set xs" and fr1: "p_status (hdrs s1 x) = FREE"
    and st1: "\<And>y. y \<noteq> x \<Longrightarrow> p_status (hdrs s1 y) = p_status (hdrs s y)
            \<and> p_payload (hdrs s1 y) = p_payload (hdrs s y)
            \<and> p_end_marker (hdrs s1 y) = p_end_marker (hdrs s y)"
    and keep1: "\<And>y. y \<in> set xs \<Longrightarrow> y \<noteq> x \<Longrightarrow> p_status (hdrs s y) \<noteq> FREE \<Longrightarrow>
            y \<in> set xs1 \<and> block_size (hdrs s1 y) = block_size (hdrs s y)"
    and b1: "bytes s1 = bytes s"
    and g1: "gstats s1 = gstats (remove_from_statistics (get_payload_size x s) s)"
    and bf1: "buffer (default_buffer s1) = buffer (default_buffer s)"
    by blast
  have al: "p_status (hdrs s y) = ALLOCATED" if "y \<in> set X" for y
    using fX [OF that] by (simp add: freeable_def)
  have X1: "set X \<subseteq> set xs1"
  proof
    fix y assume y: "y \<in> set X"
    with xX have "y \<noteq> x" by auto
    with keep1 [of y] X y al [OF y] show "y \<in> set xs1" by auto
  qed
  have fX1: "\<forall>y \<in> set X. freeable s1 y"
  proof
    fix y assume y: "y \<in> set X"
    with xX have ne: "y \<noteq> x" by auto
    show "freeable s1 y"
      by (rule freeable_frame [OF fX [OF y]])
         (simp_all add: st1 [OF ne] b1 g1 remove_from_statistics_fields)
  qed
  from Cons.IH [OF w1 X1 dX fX1] obtain s' xs' where
    fa: "free_all (map (\<lambda>x. x + sizeof_header) X) f l s1 = Some (Returns s')"
    and w': "wf s' xs'" and sub': "set xs' \<subseteq> set xs1"
    and fr': "\<And>y. y \<in> set X \<Longrightarrow> p_status (hdrs s' y) = FREE"
    and st': "\<And>y. y \<notin> set X \<Longrightarrow> p_status (hdrs s' y) = p_status (hdrs s1 y)"
    and keep': "\<And>y. y \<in> set xs1 \<Longrightarrow> y \<notin> set X \<Longrightarrow> p_status (hdrs s1 y) \<noteq> FREE \<Longrightarrow>
            y \<in> set xs' \<and> block_size (hdrs s' y) = block_size (hdrs s1 y)"
    and bf': "buffer (default_buffer s') = buffer (default_buffer s1)"
    by blast
  have 1: "free_all (map (\<lambda>x. x + sizeof_header) (x # X)) f l s = Some (Returns s')"
    using m fa by simp
  have 2: "\<forall>y \<in> set (x # X). p_status (hdrs s' y) = FREE"
    using fr' st' [OF xX] fr1 by auto
  have 3: "\<forall>y. y \<notin> set (x # X) \<longrightarrow> p_status (hdrs s' y) = p_status (hdrs s y)"
    using st' st1 by auto
  have 4: "\<forall>y \<in> set xs. y \<notin> set (x # X) \<longrightarrow> p_status (hdrs s y) \<noteq> FREE \<longrightarrow>
            y \<in> set xs' \<and> block_size (hdrs s' y) = block_size (hdrs s y)"
  proof (intro ballI impI)
    fix y assume y: "y \<in> set xs" "y \<notin> set (x # X)" "p_status (hdrs s y) \<noteq> FREE"
    then have ne: "y \<noteq> x" and nX: "y \<notin> set X" by auto
    from keep1 [OF y(1) ne y(3)] have k: "y \<in> set xs1"
      "block_size (hdrs s1 y) = block_size (hdrs s y)" by simp_all
    from st1 [OF ne] y(3) have "p_status (hdrs s1 y) \<noteq> FREE" by simp
    from keep' [OF k(1) nX this] k(2)
    show "y \<in> set xs' \<and> block_size (hdrs s' y) = block_size (hdrs s y)" by simp
  qed
  from sub' sub1 have 5: "set xs' \<subseteq> set xs" by blast
  from bf' bf1 have 6: "buffer (default_buffer s') = buffer (default_buffer s)" by simp
  from 1 w' 5 2 3 4 6 show ?case by blast
qed

lemma tile_above_last:
  assumes "tile h T (us @ d # vs) B" and "u \<in> set us"
  shows "unat d < unat u"
proof -
  from assms(2) have ne: "us \<noteq> []" by auto
  from assms(1) ne have t1: "tile h T us (unat (last us))"
    and t2: "tile h (unat (last us)) (d # vs) B"
    by (simp_all add: tile_append)
  from t2 have "0 < unat (block_size (h d))"
    "unat d + unat (block_size (h d)) = unat (last us)" by simp_all
  with tile_bounds [OF t1 assms(2)] show ?thesis by simp
qed

lemma tile_below:
  assumes "tile h T (us @ d # vs) B"
  shows "tile h (unat d) vs B" and "\<forall>v \<in> set vs. unat v < unat d"
proof -
  from assms have "tile h (if us = [] then T else unat (last us)) (d # vs) B"
    by (simp add: tile_append)
  then show "tile h (unat d) vs B" by simp
  from tile_bounds [OF this] show "\<forall>v \<in> set vs. unat v < unat d" by simp
qed

lemma tags_below:
  assumes "tags h pf (us @ d # vs)"
  shows "tags h (p_status (h d) = FREE) vs"
  using assms by (simp add: tags_append)

lemma unat_add3:
  assumes "unat (x :: 64 word) + unat (y :: 64 word) + unat (z :: 64 word) < 2 ^ 64"
  shows "unat (x + y + z) = unat x + unat y + unat z"
proof -
  from assms have "unat x + unat y < 2 ^ 64" by simp
  then have 1: "unat (x + y) = unat x + unat y" by (simp add: unat_word_ariths)
  with assms have "unat (x + y) + unat z < 2 ^ 64" by simp
  then have "unat (x + y + z) = unat (x + y) + unat z" by (simp add: unat_word_ariths)
  with 1 show ?thesis by simp
qed

text \<open>
  Claim C5 (coalescing), amended. In a well-formed heap let \<open>a\<close>, \<open>b\<close> and \<open>c\<close> be
  three blocks that follow each other in memory (\<open>c\<close>, \<open>b\<close>, \<open>a\<close> in the list), each
  of them accepted by \<^verbatim>\<open>m61_free\<close>, such that a block allocated after them is still
  allocated right above \<open>c\<close>, and the block right below \<open>a\<close>, if there is one, is
  allocated. Then freeing the three payload pointers in any order returns, the heap is
  well-formed again, \<open>a\<close> is a free block of the list, \<open>b\<close> and \<open>c\<close> are no longer
  blocks of the list, and the block size of \<open>a\<close> is the sum of the three original block
  sizes (without wrap-around).
\<close>

theorem free_three_adjacent:
  assumes w: "wf s (ys @ c # b # a # zs)"
    and ys: "ys \<noteq> []" and da: "p_status (hdrs s (last ys)) = ALLOCATED"
    and ea: "zs = [] \<or> p_status (hdrs s (hd zs)) = ALLOCATED"
    and fa: "freeable s a" and fb: "freeable s b" and fc: "freeable s c"
    and dX: "distinct X" and sX: "set X = {a, b, c}"
  shows "\<exists>s' xs'. free_all (map (\<lambda>x. x + sizeof_header) X) f l s = Some (Returns s')
     \<and> wf s' xs' \<and> a \<in> set xs' \<and> b \<notin> set xs' \<and> c \<notin> set xs'
     \<and> p_status (hdrs s' a) = FREE
     \<and> unat (block_size (hdrs s' a))
         = unat (block_size (hdrs s a)) + unat (block_size (hdrs s b))
           + unat (block_size (hdrs s c))
     \<and> block_size (hdrs s' a)
         = block_size (hdrs s a) + block_size (hdrs s b) + block_size (hdrs s c)"
proof -
  let ?h = "hdrs s"
  let ?xs = "ys @ c # b # a # zs"
  let ?B = "unat (buffer (default_buffer s))"
  let ?T = "?B + unat (pos (default_buffer s))"
  define d where "d = last ys"
  from ys obtain ys' where ys': "ys = ys' @ [d]"
    unfolding d_def by (metis append_butlast_last_id)
  note pt = wf_parts [OF w]
  have xs1: "?xs = ys' @ d # (c # b # a # zs)" by (simp add: ys')
  have xs2: "?xs = (ys' @ [d]) @ c # (b # a # zs)" by (simp add: ys')
  have xs3: "?xs = (ys' @ [d, c]) @ b # (a # zs)" by (simp add: ys')
  have xs4: "?xs = (ys' @ [d, c, b]) @ a # zs" by (simp add: ys')
  from pt(2) have t: "tile ?h ?T ?xs ?B" .
  from tile_below(1) [OF t [unfolded xs1]]
  have sz: "unat c + unat (block_size (?h c)) = unat d"
    "unat b + unat (block_size (?h b)) = unat c"
    "unat a + unat (block_size (?h a)) = unat b"
    "0 < unat (block_size (?h c))" "0 < unat (block_size (?h b))"
    "0 < unat (block_size (?h a))"
    and tz: "tile ?h (unat a) zs ?B"
    by simp_all
  have above: "unat d \<le> unat u" if "u \<in> set ys" for u
  proof (cases "u = d")
    case True
    then show ?thesis by simp
  next
    case False
    with that ys' have "u \<in> set ys'" by simp
    from tile_above_last [OF t [unfolded xs1] this] show ?thesis by simp
  qed
  have below: "unat u < unat a" if "u \<in> set zs" for u
    using tile_bounds [OF tz that] by simp
  have AD: "unat a < unat d" using sz by simp
  have BA: "?B \<le> unat a" by (rule tile_le [OF tz])
  have dxs: "d \<in> set ?xs" by (simp add: ys')
  have dX': "d \<notin> set X" using sX sz by auto
  have Xs: "set X \<subseteq> set ?xs" using sX by auto
  have fX: "\<forall>x \<in> set X. freeable s x" using sX fa fb fc by auto
  from free_many [OF w Xs dX fX, of f l] obtain s' xs' where
    r: "free_all (map (\<lambda>x. x + sizeof_header) X) f l s = Some (Returns s')"
    and w': "wf s' xs'" and sub: "set xs' \<subseteq> set ?xs"
    and fr: "\<And>x. x \<in> set X \<Longrightarrow> p_status (hdrs s' x) = FREE"
    and st: "\<And>y. y \<notin> set X \<Longrightarrow> p_status (hdrs s' y) = p_status (?h y)"
    and keep: "\<And>y. y \<in> set ?xs \<Longrightarrow> y \<notin> set X \<Longrightarrow> p_status (?h y) \<noteq> FREE \<Longrightarrow>
            y \<in> set xs' \<and> block_size (hdrs s' y) = block_size (?h y)"
    and bf: "buffer (default_buffer s') = buffer (default_buffer s)"
    by blast
  let ?h' = "hdrs s'"
  let ?T' = "?B + unat (pos (default_buffer s'))"
  note pt' = wf_parts [OF w']
  from pt'(2) bf have t': "tile ?h' ?T' xs' ?B" by simp
  from keep [OF dxs dX'] da have dx': "d \<in> set xs'" by (simp add: d_def)
  then obtain us vs where xs': "xs' = us @ d # vs" by (auto dest: split_list)
  note tv = tile_below [OF t' [unfolded xs']]
  note gv = tags_below [OF pt'(3) [unfolded xs']]
  have in_vs: "e \<in> set vs" if "e \<in> set xs'" "unat e < unat d" for e
  proof -
    from that(2) have "e \<noteq> d" by auto
    moreover have "e \<notin> set us"
      using tile_above_last [OF t' [unfolded xs'], of e] that(2) by auto
    ultimately show ?thesis using that(1) xs' by simp
  qed
  have bd: "unat a = ?B \<or> (\<exists>e \<in> set vs. unat e + unat (block_size (?h' e)) = unat a)"
  proof (cases zs)
    case Nil
    with tz show ?thesis by simp
  next
    case (Cons e zs')
    with ea have e1: "p_status (?h e) = ALLOCATED" by simp
    from Cons tz have e2: "unat e + unat (block_size (?h e)) = unat a"
      and e3: "0 < unat (block_size (?h e))" by simp_all
    from e2 e3 sz sX have "e \<notin> set X" by auto
    moreover from Cons have "e \<in> set ?xs" by simp
    ultimately have k: "e \<in> set xs'" "block_size (?h' e) = block_size (?h e)"
      using keep [of e] e1 by simp_all
    from e2 e3 AD have "unat e < unat d" by simp
    from in_vs [OF k(1) this] have "e \<in> set vs" .
    moreover from e2 k(2) have "unat e + unat (block_size (?h' e)) = unat a" by simp
    ultimately show ?thesis by blast
  qed
  have gap: "p_status (?h' v) = FREE" if v: "v \<in> set vs" and lo: "unat a \<le> unat v" for v
  proof -
    from tv(2) v have hi: "unat v < unat d" by simp
    from v xs' sub have "v \<in> set ?xs" by auto
    with above [of v] below [of v] hi lo have "v \<in> {a, b, c}" by auto
    with sX fr [of v] show ?thesis by simp
  qed
  from tile_free_gap [OF tv(1) gv AD BA bd gap] obtain v ws where
    vs: "vs = v # ws" and va: "unat v = unat a"
    and sv: "unat (block_size (?h' v)) = unat d - unat a"
    and lw: "\<forall>w \<in> set ws. unat w < unat a"
    by blast
  from va have v: "v = a" by (simp add: word_unat_eq_iff)
  from sz have sum: "unat d - unat a
      = unat (block_size (?h a)) + unat (block_size (?h b)) + unat (block_size (?h c))"
    by simp
  have lt: "unat d < 2 ^ 64" using unsigned_less [of d] by simp
  with sum AD have "unat (block_size (?h a)) + unat (block_size (?h b))
      + unat (block_size (?h c)) < 2 ^ 64" by simp
  from unat_add3 [OF this] sv sum v
  have weq: "block_size (?h' a)
      = block_size (?h a) + block_size (?h b) + block_size (?h c)"
    by (simp add: word_unat_eq_iff)
  have 1: "a \<in> set xs'" using xs' vs v by simp
  have out: "y \<notin> set xs'" if "unat a < unat y" "unat y < unat d" for y
  proof
    assume "y \<in> set xs'"
    from in_vs [OF this that(2)] vs v that(1) lw show False by auto
  qed
  from out [of b] out [of c] sz have 2: "b \<notin> set xs'" "c \<notin> set xs'" by simp_all
  from fr [of a] sX have 3: "p_status (?h' a) = FREE" by simp
  from sv sum v have 4: "unat (block_size (?h' a))
      = unat (block_size (?h a)) + unat (block_size (?h b)) + unat (block_size (?h c))"
    by simp
  from r w' 1 2 3 4 weq show ?thesis by blast
qed

theorem free_three_adjacent_witness:
  "(case run [Malloc 10 ''test.cc'' 1, Malloc 10 ''test.cc'' 2, Malloc 10 ''test.cc'' 3,
              Malloc 10 ''test.cc'' 4] (init_state 0x10000, no_history) of
      None \<Rightarrow> False
    | Some (s, h) \<Rightarrow>
        wf s ([0x10120] @ 0x100C0 # 0x10060 # 0x10000 # [])
        \<and> p_status (hdrs s (last [0x10120])) = ALLOCATED
        \<and> freeable s 0x10000 \<and> freeable s 0x10060 \<and> freeable s 0x100C0
        \<and> block_size (hdrs s 0x10000) = 96 \<and> block_size (hdrs s 0x10060) = 96
        \<and> block_size (hdrs s 0x100C0) = 96
        \<and> (\<exists>s' xs'.
              free_all (map (\<lambda>x. x + sizeof_header) [0x10060, 0x100C0, 0x10000])
                ''test.cc'' 5 s = Some (Returns s')
            \<and> wf s' xs' \<and> 0x10000 \<in> set xs' \<and> 0x10060 \<notin> set xs' \<and> 0x100C0 \<notin> set xs'
            \<and> p_status (hdrs s' 0x10000) = FREE
            \<and> block_size (hdrs s' 0x10000) = 288))"
proof -
  let ?r = "run [Malloc 10 ''test.cc'' 1, Malloc 10 ''test.cc'' 2, Malloc 10 ''test.cc'' 3,
              Malloc 10 ''test.cc'' 4] (init_state 0x10000, no_history)"
  have "case ?r of None \<Rightarrow> False
    | Some (s, h) \<Rightarrow>
        buffer (default_buffer s) = 0x10000 \<and> buf_size (default_buffer s) = 0x800000
        \<and> pos (default_buffer s) = 384 \<and> head s = 0x10120
        \<and> p_prev (hdrs s 0x10120) = 0 \<and> p_next (hdrs s 0x10120) = 0x100C0
        \<and> p_prev (hdrs s 0x100C0) = 0x10120 \<and> p_next (hdrs s 0x100C0) = 0x10060
        \<and> p_prev (hdrs s 0x10060) = 0x100C0 \<and> p_next (hdrs s 0x10060) = 0x10000
        \<and> p_prev (hdrs s 0x10000) = 0x10060 \<and> p_next (hdrs s 0x10000) = 0
        \<and> block_size (hdrs s 0x10120) = 96 \<and> block_size (hdrs s 0x100C0) = 96
        \<and> block_size (hdrs s 0x10060) = 96 \<and> block_size (hdrs s 0x10000) = 96
        \<and> p_status (hdrs s 0x10120) = ALLOCATED \<and> p_status (hdrs s 0x100C0) = ALLOCATED
        \<and> p_status (hdrs s 0x10060) = ALLOCATED \<and> p_status (hdrs s 0x10000) = ALLOCATED
        \<and> freeable s 0x10000 \<and> freeable s 0x10060 \<and> freeable s 0x100C0"
    by code_simp
  then obtain s h where r: "?r = Some (s, h)"
    and a: "buffer (default_buffer s) = 0x10000" "buf_size (default_buffer s) = 0x800000"
      "pos (default_buffer s) = 384" "head s = 0x10120"
    and k: "p_prev (hdrs s 0x10120) = 0" "p_next (hdrs s 0x10120) = 0x100C0"
      "p_prev (hdrs s 0x100C0) = 0x10120" "p_next (hdrs s 0x100C0) = 0x10060"
      "p_prev (hdrs s 0x10060) = 0x100C0" "p_next (hdrs s 0x10060) = 0x10000"
      "p_prev (hdrs s 0x10000) = 0x10060" "p_next (hdrs s 0x10000) = 0"
    and b: "block_size (hdrs s 0x10120) = 96" "block_size (hdrs s 0x100C0) = 96"
      "block_size (hdrs s 0x10060) = 96" "block_size (hdrs s 0x10000) = 96"
    and t: "p_status (hdrs s 0x10120) = ALLOCATED" "p_status (hdrs s 0x100C0) = ALLOCATED"
      "p_status (hdrs s 0x10060) = ALLOCATED" "p_status (hdrs s 0x10000) = ALLOCATED"
    and f: "freeable s 0x10000" "freeable s 0x10060" "freeable s 0x100C0"
    by (auto split: option.splits)
  from a k b t have w: "wf s ([0x10120] @ 0x100C0 # 0x10060 # 0x10000 # [])"
    by (simp add: wf_def)
  from t have d: "p_status (hdrs s (last [0x10120])) = ALLOCATED" by simp
  have n: "[0x10120 :: addr] \<noteq> []" and z: "([] :: addr list) = [] \<or>
      p_status (hdrs s (hd [])) = ALLOCATED"
    and dx: "distinct [0x10060 :: addr, 0x100C0, 0x10000]"
    and sx: "set [0x10060 :: addr, 0x100C0, 0x10000] = {0x10000, 0x10060, 0x100C0}"
    by auto
  from free_three_adjacent [OF w n d z f dx sx, of "''test.cc''" 5]
  obtain s' xs' where
    1: "free_all (map (\<lambda>x. x + sizeof_header) [0x10060, 0x100C0, 0x10000])
          ''test.cc'' 5 s = Some (Returns s')"
    and 2: "wf s' xs'" "0x10000 \<in> set xs'" "0x10060 \<notin> set xs'" "0x100C0 \<notin> set xs'"
      "p_status (hdrs s' 0x10000) = FREE"
    and 3: "block_size (hdrs s' 0x10000) = block_size (hdrs s 0x10000)
          + block_size (hdrs s 0x10060) + block_size (hdrs s 0x100C0)"
    by blast
  from 3 b have 4: "block_size (hdrs s' 0x10000) = 288" by simp
  from 1 2 4 have "\<exists>s' xs'.
              free_all (map (\<lambda>x. x + sizeof_header) [0x10060, 0x100C0, 0x10000])
                ''test.cc'' 5 s = Some (Returns s')
            \<and> wf s' xs' \<and> 0x10000 \<in> set xs' \<and> 0x10060 \<notin> set xs' \<and> 0x100C0 \<notin> set xs'
            \<and> p_status (hdrs s' 0x10000) = FREE
            \<and> block_size (hdrs s' 0x10000) = 288"
    by blast
  with w d f b show ?thesis unfolding r by simp
qed

text \<open>
  Claim C5 fails as stated when the three blocks are the last ones carved from the
  arena. Three blocks of 96 bytes are allocated next to each other and freed from the
  newest to the oldest: every call retracts the frontier over the freed head block, so
  in the end the list is empty, the frontier is back at the start of the arena, and each
  of the three headers still records 96 bytes; no free block of 288 bytes exists.
\<close>

theorem free_three_at_frontier:
  "(case run [Malloc 10 ''test.cc'' 1, Malloc 10 ''test.cc'' 2, Malloc 10 ''test.cc'' 3]
           (init_state 0x10000, no_history) of
      None \<Rightarrow> False
    | Some (s, h) \<Rightarrow>
        wf s [0x100C0, 0x10060, 0x10000]
        \<and> freeable s 0x10000 \<and> freeable s 0x10060 \<and> freeable s 0x100C0
        \<and> block_size (hdrs s 0x10000) = 96 \<and> block_size (hdrs s 0x10060) = 96
        \<and> block_size (hdrs s 0x100C0) = 96
        \<and> (case free_all [0x10100, 0x100A0, 0x10040] ''test.cc'' 4 s of
              Some (Returns s') \<Rightarrow>
                head s' = 0 \<and> pos (default_buffer s') = 0
                \<and> block_size (hdrs s' 0x10000) = 96
                \<and> block_size (hdrs s' 0x10060) = 96
                \<and> block_size (hdrs s' 0x100C0) = 96
            | _ \<Rightarrow> False))"
proof -
  let ?r = "run [Malloc 10 ''test.cc'' 1, Malloc 10 ''test.cc'' 2, Malloc 10 ''test.cc'' 3]
           (init_state 0x10000, no_history)"
  have "case ?r of None \<Rightarrow> False
    | Some (s, h) \<Rightarrow>
        buffer (default_buffer s) = 0x10000 \<and> buf_size (default_buffer s) = 0x800000
        \<and> pos (default_buffer s) = 288 \<and> head s = 0x100C0
        \<and> p_prev (hdrs s 0x100C0) = 0 \<and> p_next (hdrs s 0x100C0) = 0x10060
        \<and> p_prev (hdrs s 0x10060) = 0x100C0 \<and> p_next (hdrs s 0x10060) = 0x10000
        \<and> p_prev (hdrs s 0x10000) = 0x10060 \<and> p_next (hdrs s 0x10000) = 0
        \<and> block_size (hdrs s 0x100C0) = 96
        \<and> block_size (hdrs s 0x10060) = 96 \<and> block_size (hdrs s 0x10000) = 96
        \<and> p_status (hdrs s 0x100C0) = ALLOCATED
        \<and> p_status (hdrs s 0x10060) = ALLOCATED \<and> p_status (hdrs s 0x10000) = ALLOCATED
        \<and> freeable s 0x10000 \<and> freeable s 0x10060 \<and> freeable s 0x100C0
        \<and> (case free_all [0x10100, 0x100A0, 0x10040] ''test.cc'' 4 s of
              Some (Returns s') \<Rightarrow>
                head s' = 0 \<and> pos (default_buffer s') = 0
                \<and> block_size (hdrs s' 0x10000) = 96
                \<and> block_size (hdrs s' 0x10060) = 96
                \<and> block_size (hdrs s' 0x100C0) = 96
            | _ \<Rightarrow> False)"
    by code_simp
  then obtain s h where r: "?r = Some (s, h)"
    and a: "buffer (default_buffer s) = 0x10000" "buf_size (default_buffer s) = 0x800000"
      "pos (default_buffer s) = 288" "head s = 0x100C0"
    and k: "p_prev (hdrs s 0x100C0) = 0" "p_next (hdrs s 0x100C0) = 0x10060"
      "p_prev (hdrs s 0x10060) = 0x100C0" "p_next (hdrs s 0x10060) = 0x10000"
      "p_prev (hdrs s 0x10000) = 0x10060" "p_next (hdrs s 0x10000) = 0"
    and b: "block_size (hdrs s 0x100C0) = 96"
      "block_size (hdrs s 0x10060) = 96" "block_size (hdrs s 0x10000) = 96"
    and t: "p_status (hdrs s 0x100C0) = ALLOCATED"
      "p_status (hdrs s 0x10060) = ALLOCATED" "p_status (hdrs s 0x10000) = ALLOCATED"
    and f: "freeable s 0x10000" "freeable s 0x10060" "freeable s 0x100C0"
    and c: "case free_all [0x10100, 0x100A0, 0x10040] ''test.cc'' 4 s of
              Some (Returns s') \<Rightarrow>
                head s' = 0 \<and> pos (default_buffer s') = 0
                \<and> block_size (hdrs s' 0x10000) = 96
                \<and> block_size (hdrs s' 0x10060) = 96
                \<and> block_size (hdrs s' 0x100C0) = 96
            | _ \<Rightarrow> False"
    by (auto split: option.splits)
  from a k b t have w: "wf s [0x100C0, 0x10060, 0x10000]"
    by (simp add: wf_def)
  from w f b c show ?thesis unfolding r by simp
qed

end
